theory Spec2Isabelle
  imports Complex_Main "HOL-Library.Word"
begin

unbundle bit_operations_syntax

section \<open>CacheDumper: decoding TCO texture-cache files (src/main.cpp)\<close>

text \<open>
  The program reads a \<^verbatim>\<open>.tco\<close> file, checks three fixed-size headers, decompresses
  the payload with LZ4, converts the texels of the declared layout to 8 bits per
  channel and hands the pixel buffer to the TGA writer. The model below follows
  \<^verbatim>\<open>ProcessOneFile\<close> statement by statement. LZ4, DirectXTex and stb_image_write
  are external libraries: they appear as the fields of an environment record.
\<close>

subsection \<open>Machine types\<close>

type_synonym uint8 = "8 word"
type_synonym uint16 = "16 word"
type_synonym uint32 = "32 word"

text \<open>Little-endian value of a byte sequence (the target is x86-64 Windows).\<close>

definition le_nat :: "uint8 list \<Rightarrow> nat" where
  "le_nat bs = foldr (\<lambda>b n. unat b + 256 * n) bs 0"

text \<open>\<^verbatim>\<open>*(uint16*)(m + p)\<close> and \<^verbatim>\<open>*(uint32*)(m + p)\<close>; the caller checks the bounds.\<close>

definition rd16 :: "uint8 list \<Rightarrow> nat \<Rightarrow> uint16" where
  "rd16 m p = of_nat (le_nat (take 2 (drop p m)))"

definition rd32 :: "uint8 list \<Rightarrow> nat \<Rightarrow> uint32" where
  "rd32 m p = of_nat (le_nat (take 4 (drop p m)))"

subsection \<open>Single-precision arithmetic\<close>

text \<open>
  The conversions are written with \<^verbatim>\<open>float\<close>: \<^verbatim>\<open>uint8((float(v) / UINT16_MAX) * UINT8_MAX)\<close>.
  A \<^verbatim>\<open>float\<close> is an IEEE 754 binary32 number, and every operation returns the exact
  result rounded to the nearest number with a 24-bit significand, ties to even.
  The program is built for x86-64 Windows, where \<^verbatim>\<open>float\<close> expressions are evaluated
  in single precision and the integer operands (\<^verbatim>\<open>UINT16_MAX\<close>, \<^verbatim>\<open>UINT_MAX\<close>,
  \<^verbatim>\<open>0xFFFFFF00\<close>, \<^verbatim>\<open>UINT8_MAX\<close>) are converted to \<^verbatim>\<open>float\<close> first.
  Values are non-negative reals here; \<open>float32\<close> is that rounding. It is exact
  binary32 rounding for results in the normal range \<open>2 powi (-126) \<le> x < 2 powi 128\<close>
  (and for 0), which covers every value the program computes (they lie in
  \<open>{0} \<union> [2 powi (-33), 2 powi 32]\<close>); subnormals and overflow are not modelled.
\<close>

definition rne :: "real \<Rightarrow> int" where
  "rne x = (let f = \<lfloor>x\<rfloor>; d = x - of_int f in
     if d < 1/2 then f else if 1/2 < d then f + 1 else if even f then f else f + 1)"

text \<open>The binary exponent of a positive number: \<open>2 powi ilog2 x \<le> x < 2 powi (ilog2 x + 1)\<close>.\<close>

function ilog2 :: "real \<Rightarrow> int" where
  "ilog2 x = (if x \<le> 0 then 0
              else if x < 1 then ilog2 (2 * x) - 1
              else if 2 \<le> x then ilog2 (x / 2) + 1
              else 0)"
  by pat_completeness auto
termination
proof (relation "measure (\<lambda>x. nat \<lfloor>x\<rfloor> + 2 * nat \<lceil>1 / x\<rceil>)")
  show "wf (measure (\<lambda>x::real. nat \<lfloor>x\<rfloor> + 2 * nat \<lceil>1 / x\<rceil>))" by simp
next
  fix x :: real
  assume a: "\<not> x \<le> 0" "x < 1"
  have fx: "\<lfloor>x\<rfloor> = 0" using a by (simp add: floor_eq_iff)
  show "(2 * x, x) \<in> measure (\<lambda>x. nat \<lfloor>x\<rfloor> + 2 * nat \<lceil>1 / x\<rceil>)"
  proof (cases "x < 1/2")
    case True
    then have f2: "\<lfloor>2 * x\<rfloor> = 0" using a by (simp add: floor_eq_iff)
    have "1 / (2 * x) \<le> 1 / x - 1" using a True by (simp add: field_simps)
    then have "\<lceil>1 / (2 * x)\<rceil> \<le> \<lceil>1 / x - 1\<rceil>" by (rule ceiling_mono)
    then have c: "\<lceil>1 / (2 * x)\<rceil> \<le> \<lceil>1 / x\<rceil> - 1" by simp
    have "0 < \<lceil>1 / (2 * x)\<rceil>" using a by (simp add: field_simps)
    with c fx f2 show ?thesis by simp
  next
    case False
    then have f2: "\<lfloor>2 * x\<rfloor> = 1" using a by (simp add: floor_eq_iff)
    have c2: "\<lceil>1 / (2 * x)\<rceil> = 1" using a False by (simp add: ceiling_eq_iff field_simps)
    have c1: "\<lceil>1 / x\<rceil> = 2" using a False by (simp add: ceiling_eq_iff field_simps)
    show ?thesis using fx f2 c1 c2 by simp
  qed
next
  fix x :: real
  assume a: "\<not> x \<le> 0" "\<not> x < 1" "2 \<le> x"
  have c1: "\<lceil>1 / x\<rceil> = 1" using a by (simp add: ceiling_eq_iff field_simps)
  have c2: "\<lceil>1 / (x / 2)\<rceil> = 1" using a by (simp add: ceiling_eq_iff field_simps)
  have "x / 2 \<le> x - 1" using a by simp
  then have "\<lfloor>x / 2\<rfloor> \<le> \<lfloor>x - 1\<rfloor>" by (rule floor_mono)
  then have f: "\<lfloor>x / 2\<rfloor> \<le> \<lfloor>x\<rfloor> - 1" by simp
  have "0 < \<lfloor>x\<rfloor>" using a by simp
  with f c1 c2 show "(x / 2, x) \<in> measure (\<lambda>x. nat \<lfloor>x\<rfloor> + 2 * nat \<lceil>1 / x\<rceil>)"
    by simp
qed

declare ilog2.simps [simp del]

definition float32 :: "real \<Rightarrow> real" where
  "float32 x = (if x = 0 then 0 else
     let u = 2 powi (ilog2 x - 23) in of_int (rne (x / u)) * u)"

text \<open>
  \<^verbatim>\<open>float(n)\<close> for an unsigned integer, the quotient and the product of two floats,
  and \<^verbatim>\<open>uint8(x)\<close>, which truncates (the C++ conversion is defined for
  \<open>0 \<le> x < 256\<close> only; every value converted here is in \<open>[0, 255]\<close>).
\<close>

definition float_of_nat :: "nat \<Rightarrow> real" where
  "float_of_nat n = float32 (real n)"

definition fdiv :: "real \<Rightarrow> real \<Rightarrow> real" where
  "fdiv a b = float32 (a / b)"

definition fmul :: "real \<Rightarrow> real \<Rightarrow> real" where
  "fmul a b = float32 (a * b)"

definition uint8_of_float :: "real \<Rightarrow> uint8" where
  "uint8_of_float x = word_of_int \<lfloor>x\<rfloor>"

definition UINT8_MAX :: nat where "UINT8_MAX = 255"
definition UINT16_MAX :: nat where "UINT16_MAX = 65535"
definition UINT_MAX :: nat where "UINT_MAX = 4294967295"

text \<open>
  \<^verbatim>\<open>uint8((float(v) / d) * UINT8_MAX)\<close>, the form of every conversion in the file:
  \<open>scaled\<close> is the \<^verbatim>\<open>float\<close> product, \<open>rescale\<close> the byte stored.
\<close>

definition scaled :: "nat \<Rightarrow> nat \<Rightarrow> real" where
  "scaled v d = fmul (fdiv (float_of_nat v) (float_of_nat d)) (float_of_nat UINT8_MAX)"

definition rescale :: "nat \<Rightarrow> nat \<Rightarrow> uint8" where
  "rescale v d = uint8_of_float (scaled v d)"

subsection \<open>Headers (lines 37-113)\<close>

text \<open>
  \<^verbatim>\<open>Read\<close> overlays a structure of \<open>sz = sizeof(T)\<close> bytes on the buffer at offset
  \<open>buf\<close>; \<open>end\<close> is the length of the buffer. It fails when
  \<^verbatim>\<open>buf + sizeof(T) >= end\<close>.
\<close>

definition Read :: "nat \<Rightarrow> uint8 list \<Rightarrow> nat \<Rightarrow> bool \<Rightarrow> (uint8 list \<times> nat) option" where
  "Read sz data buf advance =
     (if buf + sz \<ge> length data then None
      else Some (take sz (drop buf data), if advance then buf + sz else buf))"

datatype TCOLayout =
  BC1 | BC2 | BC3 | BC4 | BC5 | Not_Used | R11G11B10 | RGBA8 | RG16 | R16 | R32 | R32G8 | R24G8 | R8

text \<open>The enumeration has the underlying type \<^verbatim>\<open>int\<close>; a file can hold any 32-bit value.\<close>

definition TCOLayout_of :: "uint32 \<Rightarrow> TCOLayout option" where
  "TCOLayout_of w =
     (if unat w < 14
      then Some ([BC1, BC2, BC3, BC4, BC5, Not_Used, R11G11B10, RGBA8, RG16, R16, R32, R32G8, R24G8, R8] ! unat w)
      else None)"

record BaseHeader =
  flag :: uint32

record CompressedDataHeader = BaseHeader +
  unk :: "uint8 list"
  dataHeaderSize :: uint32
  compressedSize :: uint32
  decompressedSize :: uint32

record TCOHeader = BaseHeader +
  width :: uint32
  height :: uint32
  layout :: uint32
  numMips :: uint32
  flipV :: bool

definition sizeof_BaseHeader :: nat where "sizeof_BaseHeader = 4"
definition sizeof_CompressedDataHeader :: nat where "sizeof_CompressedDataHeader = 24"
definition sizeof_TCOHeader :: nat where "sizeof_TCOHeader = 24"

text \<open>
  \<^verbatim>\<open>res = *(T*)buf\<close>: the fields at their offsets in the structure. The byte of
  \<^verbatim>\<open>flipV\<close> is read as a \<^verbatim>\<open>bool\<close>: 0 is false and 1 is true. No other byte is a
  value of \<^verbatim>\<open>bool\<close>; the model takes such a byte as true.
\<close>

definition as_BaseHeader :: "uint8 list \<Rightarrow> BaseHeader" where
  "as_BaseHeader bs = \<lparr> flag = rd32 bs 0 \<rparr>"

definition as_CompressedDataHeader :: "uint8 list \<Rightarrow> CompressedDataHeader" where
  "as_CompressedDataHeader bs =
     \<lparr> flag = rd32 bs 0, unk = take 8 (drop 4 bs), dataHeaderSize = rd32 bs 12,
       compressedSize = rd32 bs 16, decompressedSize = rd32 bs 20 \<rparr>"

definition as_TCOHeader :: "uint8 list \<Rightarrow> TCOHeader" where
  "as_TCOHeader bs =
     \<lparr> flag = rd32 bs 0, width = rd32 bs 4, height = rd32 bs 8, layout = rd32 bs 12,
       numMips = rd32 bs 16, flipV = (bs ! 20 \<noteq> 0) \<rparr>"

subsection \<open>Errors, faults and the external libraries\<close>

text \<open>One constructor for each message passed to \<^verbatim>\<open>LogError\<close>.\<close>

datatype error =
    FileIncomplete
  | BaseHeaderReadFailed
  | UnsupportedFlag uint32
  | CompHeaderReadFailed
  | HeaderSizeMismatch
  | TCOHeaderReadFailed
  | DecompressFailed
  | LayoutNotSupported int
  | ScratchImageInitFailed
  | ImageDecompressFailed
  | WriteFailed

text \<open>
  The messages which say that the file ended inside a header (the specification's
  \<^verbatim>\<open>TruncatedHeader\<close>).
\<close>

definition truncated_header :: "error \<Rightarrow> bool" where
  "truncated_header e =
     (e = FileIncomplete \<or> e = BaseHeaderReadFailed \<or> e = CompHeaderReadFailed \<or> e = TCOHeaderReadFailed)"

text \<open>
  The loops have no bounds checks. An access outside the payload or outside the
  allocated pixel buffer is undefined behaviour in C++; the model stops there with
  a fault.
\<close>

datatype fault = ReadPastEnd | WritePastEnd

datatype bc_result = InitializeFailed | BCDecompressFailed | BCImage "uint8 list"

record tga_call =
  out_filename :: string
  out_x :: uint32
  out_y :: uint32
  out_comp :: uint32
  out_data :: "uint8 list"
  out_flip :: bool

text \<open>
  \<^item> \<open>LZ4_decompress_safe src compressedSize dstCapacity\<close> returns the result code and
    the bytes written to the destination; \<open>src\<close> is the rest of the file.
  \<^item> \<open>DirectX_Decompress\<close> (layout tag, width, height, mip levels, source) stands
    for \<^verbatim>\<open>ScratchImage::Initialize\<close>, the copy of the source and
    \<^verbatim>\<open>DirectX::Decompress\<close>; \<open>BCImage\<close> carries the \<^verbatim>\<open>slicePitch\<close> bytes at
    \<^verbatim>\<open>pRes->pixels\<close>.
  \<^item> \<open>stbi_write_tga\<close> returns whether the image was written.
  \<^item> \<open>uninit\<close> gives the contents of freshly allocated memory (\<^verbatim>\<open>new\<close> does not
    initialise it).
\<close>

record env =
  LZ4_decompress_safe :: "uint8 list \<Rightarrow> int \<Rightarrow> int \<Rightarrow> int \<times> uint8 list"
  DirectX_Decompress :: "uint32 \<Rightarrow> uint32 \<Rightarrow> uint32 \<Rightarrow> uint32 \<Rightarrow> uint8 list \<Rightarrow> bc_result"
  stbi_write_tga :: "tga_call \<Rightarrow> bool"
  uninit :: "nat \<Rightarrow> uint8"

definition new_array :: "env \<Rightarrow> nat \<Rightarrow> uint8 list" where
  "new_array e n = map (uninit e) [0..<n]"

text \<open>\<open>n\<close> bytes of \<open>src\<close> copied over the start of \<open>dst\<close>.\<close>

definition memcpy :: "uint8 list \<Rightarrow> uint8 list \<Rightarrow> nat \<Rightarrow> uint8 list" where
  "memcpy dst src n = take n src @ drop n dst"

subsection \<open>The unpacking loops (lines 255-324)\<close>

text \<open>
  Each loop walks a cursor over the payload and stops when the cursor is equal to
  the end pointer (\<^verbatim>\<open>pChannel != (uint16*)pDecDataEnd\<close>). \<open>p\<close> is the byte offset of the
  cursor, \<open>i\<close> the pixel counter and \<open>out\<close> the allocated buffer \<^verbatim>\<open>p8BitData\<close>. The
  checks for the faults are in the order of the accesses of the loop body. The counter
  is a \<^verbatim>\<open>uint32\<close> in the source; it stays below the payload size, which is a
  \<^verbatim>\<open>uint32\<close> too, so it does not wrap and is a \<open>nat\<close> here.
\<close>

function RG16_loop :: "uint8 list \<Rightarrow> nat \<Rightarrow> nat \<Rightarrow> uint8 list \<Rightarrow> fault + uint8 list" where
  "RG16_loop dec p i out =
     (if p = length dec then Inr out
      else if length dec < p + 2 then Inl ReadPastEnd
      else if length out \<le> i * 2 + 0 then Inl WritePastEnd
      else if length dec < p + 4 then Inl ReadPastEnd
      else if length out \<le> i * 2 + 1 then Inl WritePastEnd
      else RG16_loop dec (p + 4) (i + 1)
             (out[i * 2 + 0 := rescale (unat (rd16 dec p)) UINT16_MAX,
                  i * 2 + 1 := rescale (unat (rd16 dec (p + 2))) UINT16_MAX]))"
  by pat_completeness auto
termination
  by (relation "measure (\<lambda>(dec, p, i, out). length dec - p)") auto

function R16_loop :: "uint8 list \<Rightarrow> nat \<Rightarrow> nat \<Rightarrow> uint8 list \<Rightarrow> fault + uint8 list" where
  "R16_loop dec p i out =
     (if p = length dec then Inr out
      else if length dec < p + 2 then Inl ReadPastEnd
      else if length out \<le> i then Inl WritePastEnd
      else R16_loop dec (p + 4) (i + 1) (out[i := rescale (unat (rd16 dec p)) UINT16_MAX]))"
  by pat_completeness auto
termination
  by (relation "measure (\<lambda>(dec, p, i, out). length dec - p)") auto

function R32_loop :: "uint8 list \<Rightarrow> nat \<Rightarrow> nat \<Rightarrow> uint8 list \<Rightarrow> fault + uint8 list" where
  "R32_loop dec p i out =
     (if p = length dec then Inr out
      else if length dec < p + 2 then Inl ReadPastEnd
      else if length out \<le> i then Inl WritePastEnd
      else R32_loop dec (p + 4) (i + 1) (out[i := rescale (unat (rd16 dec p)) UINT_MAX]))"
  by pat_completeness auto
termination
  by (relation "measure (\<lambda>(dec, p, i, out). length dec - p)") auto

function R32G8_loop :: "uint8 list \<Rightarrow> nat \<Rightarrow> nat \<Rightarrow> uint8 list \<Rightarrow> fault + uint8 list" where
  "R32G8_loop dec p i out =
     (if p = length dec then Inr out
      else if length dec < p + 3 then Inl ReadPastEnd
      else if length out \<le> i * 2 + 1 then Inl WritePastEnd
      else R32G8_loop dec (p + 3) (i + 1)
             (out[i * 2 + 0 := rescale (unat (rd16 dec p)) UINT16_MAX,
                  i * 2 + 1 := dec ! (p + 2)]))"
  by pat_completeness auto
termination
  by (relation "measure (\<lambda>(dec, p, i, out). length dec - p)") auto

text \<open>
  The two channels of an R24G8 texel, from the 32-bit word \<open>pix\<close>:
  \<^verbatim>\<open>red = pix & 0xFFFFFF00\<close> and \<^verbatim>\<open>uint8 green = (pix << 0x18) & 0xFF\<close>.
\<close>

definition R24G8_red :: "uint32 \<Rightarrow> uint32" where
  "R24G8_red pix = pix AND 0xFFFFFF00"

definition R24G8_green :: "uint32 \<Rightarrow> uint8" where
  "R24G8_green pix = ucast (push_bit 24 pix AND 0xFF)"

function R24G8_loop :: "uint8 list \<Rightarrow> nat \<Rightarrow> nat \<Rightarrow> uint8 list \<Rightarrow> fault + uint8 list" where
  "R24G8_loop dec p i out =
     (if p = length dec then Inr out
      else if length dec < p + 4 then Inl ReadPastEnd
      else if length out \<le> i * 2 + 1 then Inl WritePastEnd
      else R24G8_loop dec (p + 12) (i + 1)
             (out[i * 2 + 0 := rescale (unat (R24G8_red (rd32 dec p))) 0xFFFFFF00,
                  i * 2 + 1 := R24G8_green (rd32 dec p)]))"
  by pat_completeness auto
termination
  by (relation "measure (\<lambda>(dec, p, i, out). length dec - p)") auto

declare RG16_loop.simps [simp del] R16_loop.simps [simp del] R32_loop.simps [simp del]
  R32G8_loop.simps [simp del] R24G8_loop.simps [simp del]

subsection \<open>DecompressBC (lines 354-437)\<close>

text \<open>
  The result is the out-parameter \<^verbatim>\<open>numChannels\<close> and either the message logged (then
  \<^verbatim>\<open>dst\<close> stays \<^verbatim>\<open>nullptr\<close>) or the buffer \<^verbatim>\<open>dst\<close>.
\<close>

definition DecompressBC :: "env \<Rightarrow> uint8 list \<Rightarrow> TCOHeader \<Rightarrow> uint32 \<times> (error + uint8 list)" where
  "DecompressBC e source header =
     (let numChannels = (if TCOLayout_of (layout header) = Some BC4 then 1
                         else if TCOLayout_of (layout header) = Some BC5 then 2
                         else 4);
          size = unat ((width header * height header) * numChannels);
          p8BitData = new_array e size
      in (case DirectX_Decompress e (layout header) (width header) (height header)
                 (numMips header) source of
            InitializeFailed \<Rightarrow> (numChannels, Inl ScratchImageInitFailed)
          | BCDecompressFailed \<Rightarrow> (numChannels, Inl ImageDecompressFailed)
          | BCImage pixels \<Rightarrow>
              (numChannels, Inr (memcpy p8BitData pixels (min (length pixels) size)))))"

subsection \<open>The switch on the layout (lines 233-333)\<close>

text \<open>
  After the switch the source holds \<^verbatim>\<open>numChannels\<close> and \<^verbatim>\<open>p8BitData\<close>, or it has logged
  an error and returned, or it has run into undefined behaviour.
\<close>

datatype unpacked = Pixels uint32 "uint8 list" | Failed error | Crashed fault

definition after_loop :: "uint32 \<Rightarrow> fault + uint8 list \<Rightarrow> unpacked" where
  "after_loop numChannels r = (case r of Inl f \<Rightarrow> Crashed f | Inr out \<Rightarrow> Pixels numChannels out)"

definition after_BC :: "uint32 \<times> (error + uint8 list) \<Rightarrow> unpacked" where
  "after_BC r = (case r of (numChannels, Inl err) \<Rightarrow> Failed err
                         | (numChannels, Inr dst) \<Rightarrow> Pixels numChannels dst)"

text \<open>\<^verbatim>\<open>new uint8[(tcoHeader.width * tcoHeader.height) * numChannels]\<close>, in 32-bit arithmetic.\<close>

definition new_pixels :: "env \<Rightarrow> TCOHeader \<Rightarrow> uint32 \<Rightarrow> uint8 list" where
  "new_pixels e tcoHeader numChannels =
     new_array e (unat ((width tcoHeader * height tcoHeader) * numChannels))"

definition unpack :: "env \<Rightarrow> TCOHeader \<Rightarrow> uint8 list \<Rightarrow> unpacked" where
  "unpack e tcoHeader pDecData =
     (case TCOLayout_of (layout tcoHeader) of
        None \<Rightarrow> Failed (LayoutNotSupported (sint (layout tcoHeader)))
      | Some lay \<Rightarrow>
         (case lay of
            BC1 \<Rightarrow> after_BC (DecompressBC e pDecData tcoHeader)
          | BC2 \<Rightarrow> after_BC (DecompressBC e pDecData tcoHeader)
          | BC3 \<Rightarrow> after_BC (DecompressBC e pDecData tcoHeader)
          | BC4 \<Rightarrow> after_BC (DecompressBC e pDecData tcoHeader)
          | BC5 \<Rightarrow> after_BC (DecompressBC e pDecData tcoHeader)
          | Not_Used \<Rightarrow> Failed (LayoutNotSupported (sint (layout tcoHeader)))
          | R11G11B10 \<Rightarrow> Pixels 4 pDecData
          | RGBA8 \<Rightarrow> Pixels 4 pDecData
          | RG16 \<Rightarrow> after_loop 2 (RG16_loop pDecData 0 0 (new_pixels e tcoHeader 2))
          | R16 \<Rightarrow> after_loop 1 (R16_loop pDecData 0 0 (new_pixels e tcoHeader 1))
          | R32 \<Rightarrow> after_loop 1 (R32_loop pDecData 0 0 (new_pixels e tcoHeader 1))
          | R32G8 \<Rightarrow> after_loop 2 (R32G8_loop pDecData 0 0 (new_pixels e tcoHeader 2))
          | R24G8 \<Rightarrow> after_loop 2 (R24G8_loop pDecData 0 0 (new_pixels e tcoHeader 2))
          | R8 \<Rightarrow> Pixels 1 pDecData))"

subsection \<open>ProcessOneFile (lines 181-352)\<close>

text \<open>
  What processing one file comes to: nothing read (\<^verbatim>\<open>ReadFile\<close> returned no data; the
  function returns without a message), an error logged and no image written, the
  call of \<^verbatim>\<open>stbi_write_tga\<close> (which succeeded, or failed and logged
  \<open>WriteFailed\<close>), or undefined behaviour.
\<close>

datatype outcome =
    NoData
  | Rejected error
  | Wrote tga_call
  | WriteError tga_call
  | Undefined fault

text \<open>
  Lines 196-217: the three headers, read one after the other. The result is the
  message logged, or the two headers kept and the rest of the file (\<^verbatim>\<open>pData\<close> after
  the third read).
\<close>

definition read_headers :: "uint8 list \<Rightarrow> error + (CompressedDataHeader \<times> TCOHeader \<times> uint8 list)" where
  "read_headers file =
     (if length file < sizeof_TCOHeader then Inl FileIncomplete
      else (case Read sizeof_BaseHeader file 0 False of
        None \<Rightarrow> Inl BaseHeaderReadFailed
      | Some (b, pData0) \<Rightarrow>
          if flag (as_BaseHeader b) \<noteq> 4 then Inl (UnsupportedFlag (flag (as_BaseHeader b)))
          else (case Read sizeof_CompressedDataHeader file pData0 True of
            None \<Rightarrow> Inl CompHeaderReadFailed
          | Some (c, pData1) \<Rightarrow>
              if dataHeaderSize (as_CompressedDataHeader c) \<noteq> of_nat sizeof_TCOHeader
              then Inl HeaderSizeMismatch
              else (case Read sizeof_TCOHeader file pData1 True of
                None \<Rightarrow> Inl TCOHeaderReadFailed
              | Some (t, pData2) \<Rightarrow>
                  Inr (as_CompressedDataHeader c, as_TCOHeader t, drop pData2 file)))))"

text \<open>
  Lines 224-227: the buffer \<^verbatim>\<open>pDecData\<close> of \<^verbatim>\<open>decompressedSize\<close> bytes after the call of
  LZ4, with the result code.
\<close>

definition decompress :: "env \<Rightarrow> CompressedDataHeader \<Rightarrow> uint8 list \<Rightarrow> int \<times> uint8 list" where
  "decompress e compHeader pData =
     (let n = unat (decompressedSize compHeader);
          (res, written) = LZ4_decompress_safe e pData (sint (compressedSize compHeader))
                             (sint (decompressedSize compHeader))
      in (res, memcpy (new_array e n) written (min (length written) n)))"

text \<open>Lines 224-351: decompression, the switch and the output.\<close>

definition decode :: "env \<Rightarrow> string \<Rightarrow> CompressedDataHeader \<Rightarrow> TCOHeader \<Rightarrow> uint8 list \<Rightarrow> outcome" where
  "decode e fName compHeader tcoHeader pData =
     (case decompress e compHeader pData of (res, pDecData) \<Rightarrow>
        if res \<le> 0 then Rejected DecompressFailed
        else (case unpack e tcoHeader pDecData of
                Failed err \<Rightarrow> Rejected err
              | Crashed f \<Rightarrow> Undefined f
              | Pixels numChannels p8BitData \<Rightarrow>
                  (let call = \<lparr> out_filename = ''./Textures_OUT/'' @ fName @ ''.tga'',
                                out_x = width tcoHeader, out_y = height tcoHeader,
                                out_comp = numChannels, out_data = p8BitData,
                                out_flip = (\<not> flipV tcoHeader) \<rparr>
                   in if stbi_write_tga e call then Wrote call else WriteError call)))"

definition ProcessOneFile :: "env \<Rightarrow> string \<Rightarrow> uint8 list \<Rightarrow> outcome" where
  "ProcessOneFile e fName file =
     (if file = [] then NoData
      else (case read_headers file of
              Inl err \<Rightarrow> Rejected err
            | Inr (compHeader, tcoHeader, pData) \<Rightarrow> decode e fName compHeader tcoHeader pData))"

text \<open>The messages a file adds to \<^verbatim>\<open>gVecErrorMessages\<close>, and the image it writes.\<close>

fun logged :: "outcome \<Rightarrow> error list" where
  "logged (Rejected err) = [err]"
| "logged (WriteError call) = [WriteFailed]"
| "logged _ = []"

fun written_image :: "outcome \<Rightarrow> tga_call option" where
  "written_image (Wrote call) = Some call"
| "written_image _ = None"

text \<open>
  The image handed to the writer, whether or not the writer succeeds: the file has
  reached the output stage.
\<close>

fun output_stage :: "outcome \<Rightarrow> tga_call option" where
  "output_stage (Wrote call) = Some call"
| "output_stage (WriteError call) = Some call"
| "output_stage _ = None"

text \<open>
  \<^verbatim>\<open>main\<close> gives every file of the directory to \<^verbatim>\<open>ProcessOneFile\<close>, each file once (the
  worker threads take disjoint ranges of the list). A file is a name and the bytes
  \<^verbatim>\<open>ReadFile\<close> returns for it. Processing a file shares nothing with the other
  files but the list of messages. Where a file runs into undefined behaviour the
  list records the fault, and nothing is said about the run after it.
\<close>

definition ProcessFiles :: "env \<Rightarrow> (string \<times> uint8 list) list \<Rightarrow> (string \<times> outcome) list" where
  "ProcessFiles e files = map (\<lambda>(fName, file). (fName, ProcessOneFile e fName file)) files"

subsection \<open>Example inputs\<close>

text \<open>
  The channel counts of the table in section 4.3 of the specification, for the
  layouts it lists (the unused tag has no row).
\<close>

fun spec_channels :: "TCOLayout \<Rightarrow> uint32 option" where
  "spec_channels BC1 = Some 4"
| "spec_channels BC2 = Some 4"
| "spec_channels BC3 = Some 4"
| "spec_channels BC4 = Some 1"
| "spec_channels BC5 = Some 2"
| "spec_channels Not_Used = None"
| "spec_channels R11G11B10 = Some 4"
| "spec_channels RGBA8 = Some 4"
| "spec_channels RG16 = Some 2"
| "spec_channels R16 = Some 1"
| "spec_channels R32 = Some 1"
| "spec_channels R32G8 = Some 2"
| "spec_channels R24G8 = Some 2"
| "spec_channels R8 = Some 1"

text \<open>The layouts whose payload is handed to the writer as it is.\<close>

definition passthrough :: "TCOLayout \<Rightarrow> bool" where
  "passthrough lay = (lay = R11G11B10 \<or> lay = RGBA8 \<or> lay = R8)"

text \<open>
  An environment for the examples. Its decompressor is a stand-in for LZ4: on a
  block that holds a single run of \<open>n\<close> literals, with \<open>0 < n < 15\<close> (a token byte
  \<open>16 * n\<close>, then the literals), it returns the literals, as LZ4 does; it rejects
  every other block, also where LZ4 would not. The block decoder always fails, every
  image is written, and fresh memory holds zeros.
\<close>

definition literal_LZ4 :: "uint8 list \<Rightarrow> int \<Rightarrow> int \<Rightarrow> int \<times> uint8 list" where
  "literal_LZ4 src srcSize dstCapacity =
     (case take (nat srcSize) src of
        [] \<Rightarrow> (- 1, [])
      | t # lits \<Rightarrow>
          if unat t = 16 * length lits \<and> length lits < 15 \<and> int (length lits) \<le> dstCapacity
          then (int (length lits), lits) else (- 1, []))"

definition example_env :: env where
  "example_env = \<lparr> LZ4_decompress_safe = literal_LZ4,
                    DirectX_Decompress = (\<lambda>lay w h mips source. InitializeFailed),
                    stbi_write_tga = (\<lambda>call. True),
                    uninit = (\<lambda>a. 0) \<rparr>"

text \<open>The example environment with a block decoder that returns an image of four bytes.\<close>

definition example_bc_env :: env where
  "example_bc_env
     = example_env \<lparr> DirectX_Decompress := (\<lambda>lay w h mips source. BCImage [9, 9, 9, 9]) \<rparr>"

definition example_header :: "uint32 \<Rightarrow> uint32 \<Rightarrow> uint32 \<Rightarrow> TCOHeader" where
  "example_header lay w h =
     \<lparr> flag = 4, width = w, height = h, layout = lay, numMips = 1, flipV = False \<rparr>"

text \<open>A 1 x 1 RGBA8 file: both headers, then the block of the four bytes 1, 2, 3, 4.\<close>

definition file_RGBA8 :: "uint8 list" where
  "file_RGBA8 =
    [4, 0, 0, 0, 0, 0, 0, 0, 0, 0, 0, 0, 24, 0, 0, 0, 5, 0, 0, 0, 4, 0, 0, 0, 4, 0, 0, 0,
     1, 0, 0, 0, 1, 0, 0, 0, 7, 0, 0, 0, 1, 0, 0, 0, 0, 0, 0, 0, 64, 1, 2, 3, 4]"

text \<open>
  A 1 x 1 RGBA8 file whose payload is the single byte 65 (\<^verbatim>\<open>decompressedSize\<close> is 1).
\<close>

definition file_RGBA8_short :: "uint8 list" where
  "file_RGBA8_short =
    [4, 0, 0, 0, 0, 0, 0, 0, 0, 0, 0, 0, 24, 0, 0, 0, 2, 0, 0, 0, 1, 0, 0, 0, 4, 0, 0, 0,
     1, 0, 0, 0, 1, 0, 0, 0, 7, 0, 0, 0, 1, 0, 0, 0, 0, 0, 0, 0, 16, 65]"

text \<open>The first file with the flag 5 in place of 4.\<close>

definition file_flag5 :: "uint8 list" where
  "file_flag5 =
    [5, 0, 0, 0, 0, 0, 0, 0, 0, 0, 0, 0, 24, 0, 0, 0, 5, 0, 0, 0, 4, 0, 0, 0, 5, 0, 0, 0,
     1, 0, 0, 0, 1, 0, 0, 0, 7, 0, 0, 0, 1, 0, 0, 0, 0, 0, 0, 0, 64, 1, 2, 3, 4]"

text \<open>
  A 2 x 1 R16 file: the payload holds the 16-bit words 65535, 1799, 32768, 2313.
\<close>

definition file_R16 :: "uint8 list" where
  "file_R16 =
    [4, 0, 0, 0, 0, 0, 0, 0, 0, 0, 0, 0, 24, 0, 0, 0, 9, 0, 0, 0, 8, 0, 0, 0, 4, 0, 0, 0,
     2, 0, 0, 0, 1, 0, 0, 0, 9, 0, 0, 0, 1, 0, 0, 0, 0, 0, 0, 0, 128, 255, 255, 7, 7, 0,
     128, 9, 9]"

section \<open>Properties\<close>

subsection \<open>Rounding to single precision\<close>

lemma ilog2_bounds:
  "0 < x \<Longrightarrow> 2 powi (ilog2 x) \<le> x \<and> x < 2 powi (ilog2 x + 1)"
proof (induction x rule: ilog2.induct)
  case (1 x)
  show ?case
  proof (cases "x < 1")
    case True
    with 1 have ih: "2 powi (ilog2 (2 * x)) \<le> 2 * x \<and> 2 * x < 2 powi (ilog2 (2 * x) + 1)"
      by simp
    have e: "ilog2 x = ilog2 (2 * x) - 1"
      using True 1(3) by (subst ilog2.simps) simp
    show ?thesis using ih unfolding e
      by (simp add: power_int_diff power_int_add)
  next
    case False
    show ?thesis
    proof (cases "2 \<le> x")
      case True
      with 1 False have ih: "2 powi (ilog2 (x / 2)) \<le> x / 2 \<and> x / 2 < 2 powi (ilog2 (x / 2) + 1)"
        by simp
      have e: "ilog2 x = ilog2 (x / 2) + 1"
        using True False 1(3) by (subst ilog2.simps) simp
      show ?thesis using ih unfolding e
        by (simp add: power_int_add)
    next
      case F2: False
      have e: "ilog2 x = 0"
        using F2 False 1(3) by (subst ilog2.simps) simp
      show ?thesis using F2 False unfolding e by simp
    qed
  qed
qed

lemma powi2_less_D: "(2::real) powi a < 2 powi b \<Longrightarrow> a < b"
proof (rule ccontr)
  assume l: "(2::real) powi a < 2 powi b" and n: "\<not> a < b"
  from n have "b \<le> a" by simp
  then have "(2::real) powi b \<le> 2 powi a" by (rule power_int_increasing) simp
  with l show False by simp
qed

lemma ilog2_mono: "0 < x \<Longrightarrow> x \<le> y \<Longrightarrow> ilog2 x \<le> ilog2 y"
proof -
  assume a: "0 < x" "x \<le> y"
  have "2 powi (ilog2 x) \<le> x" using ilog2_bounds [of x] a by simp
  also have "x \<le> y" by fact
  also have "y < 2 powi (ilog2 y + 1)" using ilog2_bounds [of y] a by simp
  finally have "(2::real) powi (ilog2 x) < 2 powi (ilog2 y + 1)" .
  then have "ilog2 x < ilog2 y + 1" by (rule powi2_less_D)
  then show ?thesis by simp
qed

lemma rne_bounds: "x - 1/2 \<le> of_int (rne x) \<and> of_int (rne x) \<le> x + 1/2"
  unfolding rne_def Let_def by (auto; linarith)

lemma rne_of_int [simp]: "rne (of_int n) = n"
  by (simp add: rne_def)

lemma rne_mono: "x \<le> y \<Longrightarrow> rne x \<le> rne y"
proof (rule ccontr)
  assume le: "x \<le> y" and n: "\<not> rne x \<le> rne y"
  from n have "rne y + 1 \<le> rne x" by simp
  then have "(of_int (rne y) :: real) + 1 \<le> of_int (rne x)"
    by (metis of_int_1 of_int_add of_int_le_iff)
  moreover have "of_int (rne x) \<le> x + 1/2" using rne_bounds [of x] by simp
  moreover have "y - 1/2 \<le> of_int (rne y)" using rne_bounds [of y] by simp
  ultimately have "y \<le> x" by linarith
  with le have "x = y" by simp
  with n show False by simp
qed

lemma float32_range:
  assumes "0 < x"
  shows "2 powi (ilog2 x) \<le> float32 x \<and> float32 x \<le> 2 powi (ilog2 x + 1)"
proof -
  define u :: real where "u = 2 powi (ilog2 x - 23)"
  have u: "0 < u" by (simp add: u_def)
  have lo: "2 powi (ilog2 x) = 2 ^ 23 * u" and hi: "2 powi (ilog2 x + 1) = 2 ^ 24 * u"
    by (simp_all add: u_def power_int_diff power_int_add)
  from ilog2_bounds [OF assms] have "2 ^ 23 * u \<le> x" "x < 2 ^ 24 * u"
    by (simp_all add: lo hi)
  with u have "of_int (2 ^ 23) \<le> x / u" "x / u \<le> of_int (2 ^ 24)"
    by (simp_all add: field_simps)
  then have "rne (of_int (2 ^ 23)) \<le> rne (x / u)" "rne (x / u) \<le> rne (of_int (2 ^ 24))"
    by (blast intro: rne_mono)+
  then have "2 ^ 23 \<le> rne (x / u)" "rne (x / u) \<le> 2 ^ 24"
    by (simp_all only: rne_of_int)
  then have "(2 ^ 23 :: real) \<le> of_int (rne (x / u))" "of_int (rne (x / u)) \<le> (2 ^ 24 :: real)"
    by (metis of_int_le_iff of_int_numeral of_int_power)+
  with u have "2 ^ 23 * u \<le> of_int (rne (x / u)) * u" "of_int (rne (x / u)) * u \<le> 2 ^ 24 * u"
    by simp_all
  moreover have "float32 x = of_int (rne (x / u)) * u"
    using assms by (simp add: float32_def u_def Let_def)
  ultimately show ?thesis by (simp add: lo hi)
qed

lemma float32_nonneg: "0 \<le> x \<Longrightarrow> 0 \<le> float32 x"
proof (cases "x = 0")
  case True
  then show ?thesis by (simp add: float32_def)
next
  case False
  assume "0 \<le> x"
  with False have p: "0 < x" by simp
  have "(0::real) \<le> 2 powi (ilog2 x)" by simp
  also have "\<dots> \<le> float32 x" using float32_range [OF p] by simp
  finally show ?thesis .
qed

lemma float32_mono:
  assumes "0 \<le> x" "x \<le> y"
  shows "float32 x \<le> float32 y"
proof (cases "x = 0")
  case True
  have "0 \<le> float32 y" using assms by (intro float32_nonneg) simp
  with True show ?thesis by (simp add: float32_def)
next
  case False
  with assms have px: "0 < x" and py: "0 < y" by simp_all
  have e: "ilog2 x \<le> ilog2 y" using px assms(2) by (rule ilog2_mono)
  show ?thesis
  proof (cases "ilog2 x = ilog2 y")
    case True
    define u :: real where "u = 2 powi (ilog2 y - 23)"
    have u: "0 < u" by (simp add: u_def)
    have "x / u \<le> y / u" using assms(2) u by (simp add: divide_right_mono)
    then have "rne (x / u) \<le> rne (y / u)" by (rule rne_mono)
    then have "(of_int (rne (x / u)) :: real) \<le> of_int (rne (y / u))" by simp
    with u have "of_int (rne (x / u)) * u \<le> of_int (rne (y / u)) * u" by simp
    then show ?thesis using px py True by (simp add: float32_def u_def Let_def)
  next
    case False
    with e have "ilog2 x + 1 \<le> ilog2 y" by simp
    then have "(2::real) powi (ilog2 x + 1) \<le> 2 powi (ilog2 y)"
      by (rule power_int_increasing) simp
    moreover have "float32 x \<le> 2 powi (ilog2 x + 1)" using float32_range [OF px] by simp
    moreover have "2 powi (ilog2 y) \<le> float32 y" using float32_range [OF py] by simp
    ultimately show ?thesis by linarith
  qed
qed

lemmas float32_eval = float32_def ilog2.simps rne_def Let_def

lemma float_of_nat_consts:
  "float_of_nat UINT8_MAX = 255" "float_of_nat UINT16_MAX = 65535"
  "float_of_nat UINT_MAX = 4294967296" "float_of_nat 0xFFFFFF00 = 4294967040"
  by (simp_all add: float_of_nat_def UINT8_MAX_def UINT16_MAX_def UINT_MAX_def float32_eval)

lemma float_of_nat_nonneg: "0 \<le> float_of_nat n"
  unfolding float_of_nat_def by (rule float32_nonneg) simp

lemma float_of_nat_mono: "v \<le> w \<Longrightarrow> float_of_nat v \<le> float_of_nat w"
  unfolding float_of_nat_def by (rule float32_mono) simp_all

lemma fdiv_nonneg: "0 \<le> fdiv (float_of_nat v) (float_of_nat d)"
  unfolding fdiv_def by (rule float32_nonneg) (simp add: float_of_nat_nonneg)

lemma scaled_nonneg: "0 \<le> scaled v d"
  unfolding scaled_def fmul_def
  by (rule float32_nonneg) (simp add: fdiv_nonneg float_of_nat_nonneg)

lemma fdiv_mono:
  assumes "v \<le> w"
  shows "fdiv (float_of_nat v) (float_of_nat d) \<le> fdiv (float_of_nat w) (float_of_nat d)"
  unfolding fdiv_def
proof (rule float32_mono)
  show "0 \<le> float_of_nat v / float_of_nat d" by (simp add: float_of_nat_nonneg)
  show "float_of_nat v / float_of_nat d \<le> float_of_nat w / float_of_nat d"
    using float_of_nat_mono [OF assms] float_of_nat_nonneg [of d] by (rule divide_right_mono)
qed

lemma scaled_mono:
  assumes "v \<le> w"
  shows "scaled v d \<le> scaled w d"
  unfolding scaled_def fmul_def
proof (rule float32_mono)
  show "0 \<le> fdiv (float_of_nat v) (float_of_nat d) * float_of_nat UINT8_MAX"
    by (simp add: fdiv_nonneg float_of_nat_nonneg)
  show "fdiv (float_of_nat v) (float_of_nat d) * float_of_nat UINT8_MAX
        \<le> fdiv (float_of_nat w) (float_of_nat d) * float_of_nat UINT8_MAX"
    using fdiv_mono [OF assms] float_of_nat_nonneg by (rule mult_right_mono)
qed

lemma float32_exact:
  assumes "n < 2 ^ 24"
  shows "float_of_nat n = real n"
proof (cases "n = 0")
  case True
  then show ?thesis by (simp add: float_of_nat_def float32_def)
next
  case False
  then have p: "0 < real n" by simp
  define e where "e = ilog2 (real n)"
  have b: "2 powi e \<le> real n" "real n < 2 powi (e + 1)"
    using ilog2_bounds [OF p] by (simp_all add: e_def)
  have "real n < real (2 ^ 24)" using assms by (simp only: of_nat_less_iff)
  then have "real n < 2 powi 24" by simp
  with b(1) have "(2::real) powi e < 2 powi 24" by simp
  then have e_hi: "e < 24" by (rule powi2_less_D)
  have "(2::real) powi 0 \<le> real n" using False by simp
  with b(2) have "(2::real) powi 0 < 2 powi (e + 1)" by simp
  then have e_lo: "0 < e + 1" by (rule powi2_less_D)
  define s where "s = nat (23 - e)"
  have u: "(2::real) powi (e - 23) = 1 / 2 ^ s"
    using e_hi by (simp add: s_def power_int_def field_simps)
  have "real n / (2 powi (e - 23)) = of_int (int n * 2 ^ s)"
    by (simp add: u)
  then have "rne (real n / (2 powi (e - 23))) = int n * 2 ^ s"
    by (simp only: rne_of_int)
  then have "float32 (real n) = of_int (int n * 2 ^ s) * (1 / 2 ^ s)"
    using p by (simp add: float32_def Let_def e_def [symmetric] u)
  then show ?thesis by (simp add: float_of_nat_def)
qed

lemma float32_upper:
  assumes "0 \<le> x"
  shows "float32 x \<le> x * (1 + 1 / 2 ^ 24)"
proof (cases "x = 0")
  case True
  then show ?thesis by (simp add: float32_def)
next
  case False
  with assms have p: "0 < x" by simp
  define u :: real where "u = 2 powi (ilog2 x - 23)"
  have u: "0 < u" by (simp add: u_def)
  have "2 powi (ilog2 x) = 2 ^ 23 * u"
    by (simp add: u_def power_int_diff)
  with ilog2_bounds [OF p] have x: "2 ^ 23 * u \<le> x" by simp
  have "of_int (rne (x / u)) \<le> x / u + 1 / 2" using rne_bounds [of "x / u"] by simp
  with u have "of_int (rne (x / u)) * u \<le> (x / u + 1 / 2) * u"
    by (simp only: mult_le_cancel_right_pos)
  also have "\<dots> = x + u / 2" using u by (simp add: field_simps)
  also have "\<dots> \<le> x * (1 + 1 / 2 ^ 24)" using x by (simp add: field_simps)
  finally show ?thesis using p by (simp add: float32_def Let_def u_def)
qed

lemma scaled_257:
  assumes "k \<le> 255"
  shows "scaled (257 * k) UINT16_MAX = float32 (float32 (real k / 255) * 255)"
proof -
  have "257 * k < 2 ^ 24" using assms by simp
  then have "float_of_nat (257 * k) = real (257 * k)" by (rule float32_exact)
  then show ?thesis
    by (simp add: scaled_def fdiv_def fmul_def float_of_nat_consts)
qed

text \<open>
  At the multiples of 257 the two roundings of \<open>k / 255 * 255\<close> do not fall below
  \<open>k\<close>: checked for each of the 256 values.
\<close>

lemma lower_points:
  assumes "k < 256"
  shows "real k \<le> float32 (float32 (real k / 255) * 255)"
proof -
  define ok where "ok k = (real k \<le> float32 (float32 (real k / 255) * 255))" for k
  have "list_all ok [0..<256]"
    apply (simp add: upt_conv_Cons)
    apply (simp add: ok_def float32_eval)
    done
  with assms show ?thesis by (simp add: list_all_iff ok_def)
qed

lemma scaled16_upper:
  assumes "v \<le> 65535"
  shows "scaled v UINT16_MAX < real (v div 257) + 1"
proof -
  have "v < 2 ^ 24" using assms by simp
  then have ex: "float_of_nat v = real v" by (rule float32_exact)
  define q where "q = fdiv (real v) 65535"
  have q0: "0 \<le> q" unfolding q_def fdiv_def by (rule float32_nonneg) simp
  have "q \<le> real v / 65535 * (1 + 1 / 2 ^ 24)"
    unfolding q_def fdiv_def by (rule float32_upper) simp
  then have "q * 255 \<le> real v / 65535 * (1 + 1 / 2 ^ 24) * 255" by simp
  moreover have "float32 (q * 255) \<le> q * 255 * (1 + 1 / 2 ^ 24)"
    using q0 by (intro float32_upper) simp
  ultimately have "float32 (q * 255) \<le> real v / 65535 * (1 + 1 / 2 ^ 24) * 255 * (1 + 1 / 2 ^ 24)"
    by simp
  moreover have "scaled v UINT16_MAX = float32 (q * 255)"
    by (simp add: scaled_def fmul_def q_def ex float_of_nat_consts)
  moreover have "real v \<le> 65535" using assms by simp
  moreover have "real v \<le> 257 * real (v div 257) + 256"
  proof -
    have "v \<le> 257 * (v div 257) + 256"
      using div_mult_mod_eq [of v 257] mod_less_divisor [of 257 v] by linarith
    then have "real v \<le> real (257 * (v div 257) + 256)" by (simp only: of_nat_le_iff)
    then show ?thesis by simp
  qed
  ultimately show ?thesis by simp
qed

lemma scaled16_floor:
  assumes "v \<le> 65535"
  shows "\<lfloor>scaled v UINT16_MAX\<rfloor> = int (v div 257)"
proof -
  define k where "k = v div 257"
  have k: "k \<le> 255" "k < 256" "257 * k \<le> v" using assms by (simp_all add: k_def)
  have "real k \<le> scaled (257 * k) UINT16_MAX"
    using lower_points [OF k(2)] by (simp add: scaled_257 [OF k(1)])
  also have "\<dots> \<le> scaled v UINT16_MAX" using k(3) by (rule scaled_mono)
  finally have lo: "of_int (int k) \<le> scaled v UINT16_MAX" by simp
  have hi: "scaled v UINT16_MAX < of_int (int k) + 1"
    using scaled16_upper [OF assms] by (simp add: k_def)
  from lo hi have "\<lfloor>scaled v UINT16_MAX\<rfloor> = int k" by (rule floor_unique)
  then show ?thesis by (simp add: k_def)
qed

lemma rescale16:
  assumes "v \<le> 65535"
  shows "rescale v UINT16_MAX = of_nat (v * 255 div 65535)"
proof -
  have "v * 255 div 65535 = v * 255 div (255 * 257)" by simp
  also have "\<dots> = v * 255 div 255 div 257" by (rule div_mult2_eq)
  also have "\<dots> = v div 257" by simp
  finally show ?thesis
    by (simp add: rescale_def uint8_of_float_def scaled16_floor [OF assms])
qed

lemma unat_rescale16:
  assumes "v \<le> 65535"
  shows "unat (rescale v UINT16_MAX) = v * 255 div 65535"
proof -
  have "v * 255 div 65535 < 256" using assms by simp
  then show ?thesis by (simp add: rescale16 [OF assms] unat_of_nat)
qed

lemma rescale32_zero:
  assumes "v \<le> 65535"
  shows "rescale v UINT_MAX = 0"
proof -
  have "\<lfloor>scaled 65535 UINT_MAX\<rfloor> = 0"
    by (simp add: scaled_def fmul_def fdiv_def float_of_nat_def UINT8_MAX_def UINT_MAX_def
          float32_eval)
  then have "scaled 65535 UINT_MAX < 1" by (simp add: floor_eq_iff)
  moreover have "scaled v UINT_MAX \<le> scaled 65535 UINT_MAX" using assms by (rule scaled_mono)
  ultimately have "scaled v UINT_MAX < 1" by simp
  with scaled_nonneg [of v UINT_MAX] have "\<lfloor>scaled v UINT_MAX\<rfloor> = 0"
    by (simp add: floor_eq_iff)
  then show ?thesis by (simp add: rescale_def uint8_of_float_def)
qed

lemma rescale24_example: "rescale (unat (0xAABBCC00 :: uint32)) 0xFFFFFF00 = 170"
  by (simp add: rescale_def uint8_of_float_def scaled_def fmul_def fdiv_def float_of_nat_def
        UINT8_MAX_def float32_eval)

subsection \<open>The loops\<close>

text \<open>
  For each loop: a run from a cursor \<open>n\<close> strides before the end, with room for
  \<open>n\<close> pixels, ends at the end pointer and has stored the \<open>n\<close> pixels; and a run
  that ends has started a whole number of strides before the end.
\<close>

lemma R16_loop_run:
  assumes "length dec = p + 4 * n" "i + n \<le> length out"
  shows "\<exists>out'. R16_loop dec p i out = Inr out' \<and> length out' = length out
          \<and> (\<forall>m<i. out' ! m = out ! m)
          \<and> (\<forall>k<n. out' ! (i + k) = rescale (unat (rd16 dec (p + 4 * k))) UINT16_MAX)
          \<and> (\<forall>m\<ge>i + n. out' ! m = out ! m)"
  using assms
proof (induction n arbitrary: p i out)
  case 0
  then show ?case by (subst R16_loop.simps) simp
next
  case (Suc n)
  define o1 where "o1 = out[i := rescale (unat (rd16 dec p)) UINT16_MAX]"
  have step: "R16_loop dec p i out = R16_loop dec (p + 4) (i + 1) o1"
    using Suc.prems by (subst R16_loop.simps) (simp add: o1_def)
  have "length dec = (p + 4) + 4 * n" "(i + 1) + n \<le> length o1"
    using Suc.prems by (simp_all add: o1_def)
  from Suc.IH [OF this] obtain out' where o:
    "R16_loop dec (p + 4) (i + 1) o1 = Inr out'" "length out' = length o1"
    "\<forall>m<i + 1. out' ! m = o1 ! m"
    "\<forall>k<n. out' ! (i + 1 + k) = rescale (unat (rd16 dec (p + 4 + 4 * k))) UINT16_MAX"
    "\<forall>m\<ge>i + 1 + n. out' ! m = o1 ! m"
    by blast
  have pix: "out' ! (i + k) = rescale (unat (rd16 dec (p + 4 * k))) UINT16_MAX" if "k < Suc n" for k
  proof (cases k)
    case 0
    have "out' ! i = o1 ! i" using o(3) by simp
    also have "\<dots> = rescale (unat (rd16 dec p)) UINT16_MAX"
      using Suc.prems by (simp add: o1_def)
    finally show ?thesis using 0 by simp
  next
    case (Suc k')
    with that have "k' < n" by simp
    with o(4) have "out' ! (i + 1 + k') = rescale (unat (rd16 dec (p + 4 + 4 * k'))) UINT16_MAX"
      by blast
    then show ?thesis using Suc by (simp add: add.assoc)
  qed
  have "R16_loop dec p i out = Inr out'" using step o(1) by simp
  moreover have "length out' = length out" using o(2) by (simp add: o1_def)
  moreover have "\<forall>m<i. out' ! m = out ! m" using o(3) by (simp add: o1_def)
  moreover have "\<forall>m\<ge>i + Suc n. out' ! m = out ! m" using o(5) by (simp add: o1_def)
  ultimately show ?case using pix by blast
qed

lemma R16_loop_Inr_D:
  "R16_loop dec p i out = Inr out' \<Longrightarrow>
     length out' = length out \<and> (\<exists>n. length dec = p + 4 * n \<and> (n = 0 \<or> i + n \<le> length out))"
proof (induction dec p i out rule: R16_loop.induct)
  case (1 dec p i out)
  show ?case
  proof (cases "p = length dec")
    case True
    with "1.prems" show ?thesis by (subst (asm) R16_loop.simps) simp
  next
    case False
    define o1 where "o1 = out[i := rescale (unat (rd16 dec p)) UINT16_MAX]"
    from "1.prems" False have c: "\<not> length dec < p + 2" "\<not> length out \<le> i"
      "R16_loop dec (p + 4) (i + 1) o1 = Inr out'"
      by (subst (asm) R16_loop.simps, simp add: o1_def split: if_splits)+
    from "1.IH" [OF False c(1) c(2) c(3) [unfolded o1_def]]
    obtain n where n: "length out' = length out" "length dec = p + 4 + 4 * n"
      "n = 0 \<or> i + 1 + n \<le> length out"
      by auto
    have "length dec = p + 4 * Suc n" using n(2) by simp
    moreover have "i + Suc n \<le> length out" using n(3) c(2) by auto
    ultimately show ?thesis using n(1) by blast
  qed
qed

lemma R32_loop_run:
  assumes "length dec = p + 4 * n" "i + n \<le> length out"
  shows "\<exists>out'. R32_loop dec p i out = Inr out' \<and> length out' = length out
          \<and> (\<forall>m<i. out' ! m = out ! m)
          \<and> (\<forall>k<n. out' ! (i + k) = rescale (unat (rd16 dec (p + 4 * k))) UINT_MAX)
          \<and> (\<forall>m\<ge>i + n. out' ! m = out ! m)"
  using assms
proof (induction n arbitrary: p i out)
  case 0
  then show ?case by (subst R32_loop.simps) simp
next
  case (Suc n)
  define o1 where "o1 = out[i := rescale (unat (rd16 dec p)) UINT_MAX]"
  have step: "R32_loop dec p i out = R32_loop dec (p + 4) (i + 1) o1"
    using Suc.prems by (subst R32_loop.simps) (simp add: o1_def)
  have "length dec = (p + 4) + 4 * n" "(i + 1) + n \<le> length o1"
    using Suc.prems by (simp_all add: o1_def)
  from Suc.IH [OF this] obtain out' where o:
    "R32_loop dec (p + 4) (i + 1) o1 = Inr out'" "length out' = length o1"
    "\<forall>m<i + 1. out' ! m = o1 ! m"
    "\<forall>k<n. out' ! (i + 1 + k) = rescale (unat (rd16 dec (p + 4 + 4 * k))) UINT_MAX"
    "\<forall>m\<ge>i + 1 + n. out' ! m = o1 ! m"
    by blast
  have pix: "out' ! (i + k) = rescale (unat (rd16 dec (p + 4 * k))) UINT_MAX" if "k < Suc n" for k
  proof (cases k)
    case 0
    have "out' ! i = o1 ! i" using o(3) by simp
    also have "\<dots> = rescale (unat (rd16 dec p)) UINT_MAX"
      using Suc.prems by (simp add: o1_def)
    finally show ?thesis using 0 by simp
  next
    case (Suc k')
    with that have "k' < n" by simp
    with o(4) have "out' ! (i + 1 + k') = rescale (unat (rd16 dec (p + 4 + 4 * k'))) UINT_MAX"
      by blast
    then show ?thesis using Suc by (simp add: add.assoc)
  qed
  have "R32_loop dec p i out = Inr out'" using step o(1) by simp
  moreover have "length out' = length out" using o(2) by (simp add: o1_def)
  moreover have "\<forall>m<i. out' ! m = out ! m" using o(3) by (simp add: o1_def)
  moreover have "\<forall>m\<ge>i + Suc n. out' ! m = out ! m" using o(5) by (simp add: o1_def)
  ultimately show ?case using pix by blast
qed

lemma R32_loop_Inr_D:
  "R32_loop dec p i out = Inr out' \<Longrightarrow>
     length out' = length out \<and> (\<exists>n. length dec = p + 4 * n \<and> (n = 0 \<or> i + n \<le> length out))"
proof (induction dec p i out rule: R32_loop.induct)
  case (1 dec p i out)
  show ?case
  proof (cases "p = length dec")
    case True
    with "1.prems" show ?thesis by (subst (asm) R32_loop.simps) simp
  next
    case False
    define o1 where "o1 = out[i := rescale (unat (rd16 dec p)) UINT_MAX]"
    from "1.prems" False have c: "\<not> length dec < p + 2" "\<not> length out \<le> i"
      "R32_loop dec (p + 4) (i + 1) o1 = Inr out'"
      by (subst (asm) R32_loop.simps, simp add: o1_def split: if_splits)+
    from "1.IH" [OF False c(1) c(2) c(3) [unfolded o1_def]]
    obtain n where n: "length out' = length out" "length dec = p + 4 + 4 * n"
      "n = 0 \<or> i + 1 + n \<le> length out"
      by auto
    have "length dec = p + 4 * Suc n" using n(2) by simp
    moreover have "i + Suc n \<le> length out" using n(3) c(2) by auto
    ultimately show ?thesis using n(1) by blast
  qed
qed

lemma RG16_loop_run:
  assumes "length dec = p + 4 * n" "(i + n) * 2 \<le> length out"
  shows "\<exists>out'. RG16_loop dec p i out = Inr out' \<and> length out' = length out
          \<and> (\<forall>m<i * 2. out' ! m = out ! m)
          \<and> (\<forall>k<n. out' ! ((i + k) * 2) = rescale (unat (rd16 dec (p + 4 * k))) UINT16_MAX
                   \<and> out' ! ((i + k) * 2 + 1) = rescale (unat (rd16 dec (p + 4 * k + 2))) UINT16_MAX)
          \<and> (\<forall>m\<ge>(i + n) * 2. out' ! m = out ! m)"
  using assms
proof (induction n arbitrary: p i out)
  case 0
  then show ?case by (subst RG16_loop.simps) simp
next
  case (Suc n)
  define o1 where "o1 = out[i * 2 := rescale (unat (rd16 dec p)) UINT16_MAX, i * 2 + 1 := rescale (unat (rd16 dec (p + 2))) UINT16_MAX]"
  have step: "RG16_loop dec p i out = RG16_loop dec (p + 4) (i + 1) o1"
    using Suc.prems by (subst RG16_loop.simps) (simp add: o1_def)
  have "length dec = (p + 4) + 4 * n" "((i + 1) + n) * 2 \<le> length o1"
    using Suc.prems by (simp_all add: o1_def)
  from Suc.IH [OF this] obtain out' where o:
    "RG16_loop dec (p + 4) (i + 1) o1 = Inr out'" "length out' = length o1"
    "\<forall>m<(i + 1) * 2. out' ! m = o1 ! m"
    "\<forall>k<n. out' ! ((i + 1 + k) * 2) = rescale (unat (rd16 dec (p + 4 + 4 * k))) UINT16_MAX
           \<and> out' ! ((i + 1 + k) * 2 + 1) = rescale (unat (rd16 dec (p + 4 + 4 * k + 2))) UINT16_MAX"
    "\<forall>m\<ge>(i + 1 + n) * 2. out' ! m = o1 ! m"
    by blast
  have pix: "out' ! ((i + k) * 2) = rescale (unat (rd16 dec (p + 4 * k))) UINT16_MAX
             \<and> out' ! ((i + k) * 2 + 1) = rescale (unat (rd16 dec (p + 4 * k + 2))) UINT16_MAX" if "k < Suc n" for k
  proof (cases k)
    case 0
    have "out' ! (i * 2) = o1 ! (i * 2)" "out' ! (i * 2 + 1) = o1 ! (i * 2 + 1)"
      using o(3) by simp_all
    moreover have "o1 ! (i * 2) = rescale (unat (rd16 dec p)) UINT16_MAX" "o1 ! (i * 2 + 1) = rescale (unat (rd16 dec (p + 2))) UINT16_MAX"
      using Suc.prems by (simp_all add: o1_def)
    ultimately show ?thesis using 0 by simp
  next
    case (Suc k')
    with that have "k' < n" by simp
    with o(4) have "out' ! ((i + 1 + k') * 2) = rescale (unat (rd16 dec (p + 4 + 4 * k'))) UINT16_MAX
           \<and> out' ! ((i + 1 + k') * 2 + 1) = rescale (unat (rd16 dec (p + 4 + 4 * k' + 2))) UINT16_MAX"
      by blast
    then show ?thesis using Suc by (simp add: add.assoc)
  qed
  have "RG16_loop dec p i out = Inr out'" using step o(1) by simp
  moreover have "length out' = length out" using o(2) by (simp add: o1_def)
  moreover have "\<forall>m<i * 2. out' ! m = out ! m" using o(3) by (simp add: o1_def)
  moreover have "\<forall>m\<ge>(i + Suc n) * 2. out' ! m = out ! m" using o(5) by (simp add: o1_def)
  ultimately show ?case using pix by blast
qed

lemma RG16_loop_Inr_D:
  "RG16_loop dec p i out = Inr out' \<Longrightarrow>
     length out' = length out
     \<and> (\<exists>n. length dec = p + 4 * n \<and> (n = 0 \<or> (i + n) * 2 \<le> length out))"
proof (induction dec p i out rule: RG16_loop.induct)
  case (1 dec p i out)
  show ?case
  proof (cases "p = length dec")
    case True
    with "1.prems" show ?thesis by (subst (asm) RG16_loop.simps) simp
  next
    case False
    from "1.prems" False have c: "\<not> length dec < p + 2" "\<not> length out \<le> i * 2 + 0"
      "\<not> length dec < p + 4" "\<not> length out \<le> i * 2 + 1"
      "RG16_loop dec (p + 4) (i + 1) (out[i * 2 + 0 := rescale (unat (rd16 dec p)) UINT16_MAX, i * 2 + 1 := rescale (unat (rd16 dec (p + 2))) UINT16_MAX]) = Inr out'"
      by (subst (asm) RG16_loop.simps, simp split: if_splits)+
    from "1.IH" [OF False c]
    obtain n where n: "length out' = length out" "length dec = p + 4 + 4 * n"
      "n = 0 \<or> (i + 1 + n) * 2 \<le> length out"
      by auto
    have "length dec = p + 4 * Suc n" using n(2) by simp
    moreover have "(i + Suc n) * 2 \<le> length out" using n(3) c by auto
    ultimately show ?thesis using n(1) by blast
  qed
qed

lemma R32G8_loop_run:
  assumes "length dec = p + 3 * n" "(i + n) * 2 \<le> length out"
  shows "\<exists>out'. R32G8_loop dec p i out = Inr out' \<and> length out' = length out
          \<and> (\<forall>m<i * 2. out' ! m = out ! m)
          \<and> (\<forall>k<n. out' ! ((i + k) * 2) = rescale (unat (rd16 dec (p + 3 * k))) UINT16_MAX
                   \<and> out' ! ((i + k) * 2 + 1) = dec ! (p + 3 * k + 2))
          \<and> (\<forall>m\<ge>(i + n) * 2. out' ! m = out ! m)"
  using assms
proof (induction n arbitrary: p i out)
  case 0
  then show ?case by (subst R32G8_loop.simps) simp
next
  case (Suc n)
  define o1 where "o1 = out[i * 2 := rescale (unat (rd16 dec p)) UINT16_MAX, i * 2 + 1 := dec ! (p + 2)]"
  have step: "R32G8_loop dec p i out = R32G8_loop dec (p + 3) (i + 1) o1"
    using Suc.prems by (subst R32G8_loop.simps) (simp add: o1_def)
  have "length dec = (p + 3) + 3 * n" "((i + 1) + n) * 2 \<le> length o1"
    using Suc.prems by (simp_all add: o1_def)
  from Suc.IH [OF this] obtain out' where o:
    "R32G8_loop dec (p + 3) (i + 1) o1 = Inr out'" "length out' = length o1"
    "\<forall>m<(i + 1) * 2. out' ! m = o1 ! m"
    "\<forall>k<n. out' ! ((i + 1 + k) * 2) = rescale (unat (rd16 dec (p + 3 + 3 * k))) UINT16_MAX
           \<and> out' ! ((i + 1 + k) * 2 + 1) = dec ! (p + 3 + 3 * k + 2)"
    "\<forall>m\<ge>(i + 1 + n) * 2. out' ! m = o1 ! m"
    by blast
  have pix: "out' ! ((i + k) * 2) = rescale (unat (rd16 dec (p + 3 * k))) UINT16_MAX
             \<and> out' ! ((i + k) * 2 + 1) = dec ! (p + 3 * k + 2)" if "k < Suc n" for k
  proof (cases k)
    case 0
    have "out' ! (i * 2) = o1 ! (i * 2)" "out' ! (i * 2 + 1) = o1 ! (i * 2 + 1)"
      using o(3) by simp_all
    moreover have "o1 ! (i * 2) = rescale (unat (rd16 dec p)) UINT16_MAX" "o1 ! (i * 2 + 1) = dec ! (p + 2)"
      using Suc.prems by (simp_all add: o1_def)
    ultimately show ?thesis using 0 by simp
  next
    case (Suc k')
    with that have "k' < n" by simp
    with o(4) have "out' ! ((i + 1 + k') * 2) = rescale (unat (rd16 dec (p + 3 + 3 * k'))) UINT16_MAX
           \<and> out' ! ((i + 1 + k') * 2 + 1) = dec ! (p + 3 + 3 * k' + 2)"
      by blast
    then show ?thesis using Suc by (simp add: add.assoc)
  qed
  have "R32G8_loop dec p i out = Inr out'" using step o(1) by simp
  moreover have "length out' = length out" using o(2) by (simp add: o1_def)
  moreover have "\<forall>m<i * 2. out' ! m = out ! m" using o(3) by (simp add: o1_def)
  moreover have "\<forall>m\<ge>(i + Suc n) * 2. out' ! m = out ! m" using o(5) by (simp add: o1_def)
  ultimately show ?case using pix by blast
qed

lemma R32G8_loop_Inr_D:
  "R32G8_loop dec p i out = Inr out' \<Longrightarrow>
     length out' = length out
     \<and> (\<exists>n. length dec = p + 3 * n \<and> (n = 0 \<or> (i + n) * 2 \<le> length out))"
proof (induction dec p i out rule: R32G8_loop.induct)
  case (1 dec p i out)
  show ?case
  proof (cases "p = length dec")
    case True
    with "1.prems" show ?thesis by (subst (asm) R32G8_loop.simps) simp
  next
    case False
    from "1.prems" False have c: "\<not> length dec < p + 3" "\<not> length out \<le> i * 2 + 1"
      "R32G8_loop dec (p + 3) (i + 1) (out[i * 2 + 0 := rescale (unat (rd16 dec p)) UINT16_MAX, i * 2 + 1 := dec ! (p + 2)]) = Inr out'"
      by (subst (asm) R32G8_loop.simps, simp split: if_splits)+
    from "1.IH" [OF False c]
    obtain n where n: "length out' = length out" "length dec = p + 3 + 3 * n"
      "n = 0 \<or> (i + 1 + n) * 2 \<le> length out"
      by auto
    have "length dec = p + 3 * Suc n" using n(2) by simp
    moreover have "(i + Suc n) * 2 \<le> length out" using n(3) c by auto
    ultimately show ?thesis using n(1) by blast
  qed
qed

lemma R24G8_loop_run:
  assumes "length dec = p + 12 * n" "(i + n) * 2 \<le> length out"
  shows "\<exists>out'. R24G8_loop dec p i out = Inr out' \<and> length out' = length out
          \<and> (\<forall>m<i * 2. out' ! m = out ! m)
          \<and> (\<forall>k<n. out' ! ((i + k) * 2) = rescale (unat (R24G8_red (rd32 dec (p + 12 * k)))) 0xFFFFFF00
                   \<and> out' ! ((i + k) * 2 + 1) = R24G8_green (rd32 dec (p + 12 * k)))
          \<and> (\<forall>m\<ge>(i + n) * 2. out' ! m = out ! m)"
  using assms
proof (induction n arbitrary: p i out)
  case 0
  then show ?case by (subst R24G8_loop.simps) simp
next
  case (Suc n)
  define o1 where "o1 = out[i * 2 := rescale (unat (R24G8_red (rd32 dec p))) 0xFFFFFF00, i * 2 + 1 := R24G8_green (rd32 dec p)]"
  have step: "R24G8_loop dec p i out = R24G8_loop dec (p + 12) (i + 1) o1"
    using Suc.prems by (subst R24G8_loop.simps) (simp add: o1_def)
  have "length dec = (p + 12) + 12 * n" "((i + 1) + n) * 2 \<le> length o1"
    using Suc.prems by (simp_all add: o1_def)
  from Suc.IH [OF this] obtain out' where o:
    "R24G8_loop dec (p + 12) (i + 1) o1 = Inr out'" "length out' = length o1"
    "\<forall>m<(i + 1) * 2. out' ! m = o1 ! m"
    "\<forall>k<n. out' ! ((i + 1 + k) * 2) = rescale (unat (R24G8_red (rd32 dec (p + 12 + 12 * k)))) 0xFFFFFF00
           \<and> out' ! ((i + 1 + k) * 2 + 1) = R24G8_green (rd32 dec (p + 12 + 12 * k))"
    "\<forall>m\<ge>(i + 1 + n) * 2. out' ! m = o1 ! m"
    by blast
  have pix: "out' ! ((i + k) * 2) = rescale (unat (R24G8_red (rd32 dec (p + 12 * k)))) 0xFFFFFF00
             \<and> out' ! ((i + k) * 2 + 1) = R24G8_green (rd32 dec (p + 12 * k))" if "k < Suc n" for k
  proof (cases k)
    case 0
    have "out' ! (i * 2) = o1 ! (i * 2)" "out' ! (i * 2 + 1) = o1 ! (i * 2 + 1)"
      using o(3) by simp_all
    moreover have "o1 ! (i * 2) = rescale (unat (R24G8_red (rd32 dec p))) 0xFFFFFF00" "o1 ! (i * 2 + 1) = R24G8_green (rd32 dec p)"
      using Suc.prems by (simp_all add: o1_def)
    ultimately show ?thesis using 0 by simp
  next
    case (Suc k')
    with that have "k' < n" by simp
    with o(4) have "out' ! ((i + 1 + k') * 2) = rescale (unat (R24G8_red (rd32 dec (p + 12 + 12 * k')))) 0xFFFFFF00
           \<and> out' ! ((i + 1 + k') * 2 + 1) = R24G8_green (rd32 dec (p + 12 + 12 * k'))"
      by blast
    then show ?thesis using Suc by (simp add: add.assoc)
  qed
  have "R24G8_loop dec p i out = Inr out'" using step o(1) by simp
  moreover have "length out' = length out" using o(2) by (simp add: o1_def)
  moreover have "\<forall>m<i * 2. out' ! m = out ! m" using o(3) by (simp add: o1_def)
  moreover have "\<forall>m\<ge>(i + Suc n) * 2. out' ! m = out ! m" using o(5) by (simp add: o1_def)
  ultimately show ?case using pix by blast
qed

lemma R24G8_loop_Inr_D:
  "R24G8_loop dec p i out = Inr out' \<Longrightarrow>
     length out' = length out
     \<and> (\<exists>n. length dec = p + 12 * n \<and> (n = 0 \<or> (i + n) * 2 \<le> length out))"
proof (induction dec p i out rule: R24G8_loop.induct)
  case (1 dec p i out)
  show ?case
  proof (cases "p = length dec")
    case True
    with "1.prems" show ?thesis by (subst (asm) R24G8_loop.simps) simp
  next
    case False
    from "1.prems" False have c: "\<not> length dec < p + 4" "\<not> length out \<le> i * 2 + 1"
      "R24G8_loop dec (p + 12) (i + 1) (out[i * 2 + 0 := rescale (unat (R24G8_red (rd32 dec p))) 0xFFFFFF00, i * 2 + 1 := R24G8_green (rd32 dec p)]) = Inr out'"
      by (subst (asm) R24G8_loop.simps, simp split: if_splits)+
    from "1.IH" [OF False c]
    obtain n where n: "length out' = length out" "length dec = p + 12 + 12 * n"
      "n = 0 \<or> (i + 1 + n) * 2 \<le> length out"
      by auto
    have "length dec = p + 12 * Suc n" using n(2) by simp
    moreover have "(i + Suc n) * 2 \<le> length out" using n(3) c by auto
    ultimately show ?thesis using n(1) by blast
  qed
qed

text \<open>
  A run that starts a whole number of strides and a part of a stride before the end,
  with room for the pixels it stores, reads past the end of the payload.
\<close>

lemma RG16_loop_beyond: "length dec < p \<Longrightarrow> RG16_loop dec p i out = Inl ReadPastEnd"
  by (subst RG16_loop.simps) simp

lemma RG16_loop_overrun:
  assumes "length dec = p + 4 * n + r" "0 < r" "r < 4" "(i + n + 1) * 2 \<le> length out"
  shows "RG16_loop dec p i out = Inl ReadPastEnd"
  using assms
proof (induction n arbitrary: p i out)
  case 0
  then show ?case by (subst RG16_loop.simps) (simp add: RG16_loop_beyond)
next
  case (Suc n)
  define o1 where "o1 = out[i * 2 := rescale (unat (rd16 dec p)) UINT16_MAX, i * 2 + 1 := rescale (unat (rd16 dec (p + 2))) UINT16_MAX]"
  have step: "RG16_loop dec p i out = RG16_loop dec (p + 4) (i + 1) o1"
    using Suc.prems by (subst RG16_loop.simps) (simp add: o1_def)
  have "length dec = (p + 4) + 4 * n + r" "(i + 1 + n + 1) * 2 \<le> length o1"
    using Suc.prems by (simp_all add: o1_def)
  from Suc.IH [OF this(1) Suc.prems(2) Suc.prems(3) this(2)] step show ?case by simp
qed

lemma R16_loop_beyond: "length dec < p \<Longrightarrow> R16_loop dec p i out = Inl ReadPastEnd"
  by (subst R16_loop.simps) simp

lemma R16_loop_overrun:
  assumes "length dec = p + 4 * n + r" "0 < r" "r < 4" "i + n + 1 \<le> length out"
  shows "R16_loop dec p i out = Inl ReadPastEnd"
  using assms
proof (induction n arbitrary: p i out)
  case 0
  then show ?case by (subst R16_loop.simps) (simp add: R16_loop_beyond)
next
  case (Suc n)
  define o1 where "o1 = out[i := rescale (unat (rd16 dec p)) UINT16_MAX]"
  have step: "R16_loop dec p i out = R16_loop dec (p + 4) (i + 1) o1"
    using Suc.prems by (subst R16_loop.simps) (simp add: o1_def)
  have "length dec = (p + 4) + 4 * n + r" "i + 1 + n + 1 \<le> length o1"
    using Suc.prems by (simp_all add: o1_def)
  from Suc.IH [OF this(1) Suc.prems(2) Suc.prems(3) this(2)] step show ?case by simp
qed

lemma R32_loop_beyond: "length dec < p \<Longrightarrow> R32_loop dec p i out = Inl ReadPastEnd"
  by (subst R32_loop.simps) simp

lemma R32_loop_overrun:
  assumes "length dec = p + 4 * n + r" "0 < r" "r < 4" "i + n + 1 \<le> length out"
  shows "R32_loop dec p i out = Inl ReadPastEnd"
  using assms
proof (induction n arbitrary: p i out)
  case 0
  then show ?case by (subst R32_loop.simps) (simp add: R32_loop_beyond)
next
  case (Suc n)
  define o1 where "o1 = out[i := rescale (unat (rd16 dec p)) UINT_MAX]"
  have step: "R32_loop dec p i out = R32_loop dec (p + 4) (i + 1) o1"
    using Suc.prems by (subst R32_loop.simps) (simp add: o1_def)
  have "length dec = (p + 4) + 4 * n + r" "i + 1 + n + 1 \<le> length o1"
    using Suc.prems by (simp_all add: o1_def)
  from Suc.IH [OF this(1) Suc.prems(2) Suc.prems(3) this(2)] step show ?case by simp
qed

lemma R32G8_loop_beyond: "length dec < p \<Longrightarrow> R32G8_loop dec p i out = Inl ReadPastEnd"
  by (subst R32G8_loop.simps) simp

lemma R32G8_loop_overrun:
  assumes "length dec = p + 3 * n + r" "0 < r" "r < 3" "(i + n + 1) * 2 \<le> length out"
  shows "R32G8_loop dec p i out = Inl ReadPastEnd"
  using assms
proof (induction n arbitrary: p i out)
  case 0
  then show ?case by (subst R32G8_loop.simps) (simp add: R32G8_loop_beyond)
next
  case (Suc n)
  define o1 where "o1 = out[i * 2 := rescale (unat (rd16 dec p)) UINT16_MAX, i * 2 + 1 := dec ! (p + 2)]"
  have step: "R32G8_loop dec p i out = R32G8_loop dec (p + 3) (i + 1) o1"
    using Suc.prems by (subst R32G8_loop.simps) (simp add: o1_def)
  have "length dec = (p + 3) + 3 * n + r" "(i + 1 + n + 1) * 2 \<le> length o1"
    using Suc.prems by (simp_all add: o1_def)
  from Suc.IH [OF this(1) Suc.prems(2) Suc.prems(3) this(2)] step show ?case by simp
qed

lemma R24G8_loop_beyond: "length dec < p \<Longrightarrow> R24G8_loop dec p i out = Inl ReadPastEnd"
  by (subst R24G8_loop.simps) simp

lemma R24G8_loop_overrun:
  assumes "length dec = p + 12 * n + r" "0 < r" "r < 12" "(i + n + 1) * 2 \<le> length out"
  shows "R24G8_loop dec p i out = Inl ReadPastEnd"
  using assms
proof (induction n arbitrary: p i out)
  case 0
  then show ?case by (subst R24G8_loop.simps) (simp add: R24G8_loop_beyond)
next
  case (Suc n)
  define o1 where "o1 = out[i * 2 := rescale (unat (R24G8_red (rd32 dec p))) 0xFFFFFF00, i * 2 + 1 := R24G8_green (rd32 dec p)]"
  have step: "R24G8_loop dec p i out = R24G8_loop dec (p + 12) (i + 1) o1"
    using Suc.prems by (subst R24G8_loop.simps) (simp add: o1_def)
  have "length dec = (p + 12) + 12 * n + r" "(i + 1 + n + 1) * 2 \<le> length o1"
    using Suc.prems by (simp_all add: o1_def)
  from Suc.IH [OF this(1) Suc.prems(2) Suc.prems(3) this(2)] step show ?case by simp
qed

text \<open>
  A loop leaves through its test, with every access inside the payload and the
  allocated buffer, exactly when the payload is a whole number of strides and the
  buffer has room for the pixels. In every other case the run comes to an access
  outside the payload or the buffer, where the behaviour of the program is undefined;
  with room for the pixels it is a read past the end of the payload.
\<close>

lemma loops_in_bounds_iff:
  "((\<exists>out'. RG16_loop dec 0 0 out = Inr out')
      \<longleftrightarrow> 4 dvd length dec \<and> length dec div 4 * 2 \<le> length out)
   \<and> ((\<exists>out'. R16_loop dec 0 0 out = Inr out')
      \<longleftrightarrow> 4 dvd length dec \<and> length dec div 4 \<le> length out)
   \<and> ((\<exists>out'. R32_loop dec 0 0 out = Inr out')
      \<longleftrightarrow> 4 dvd length dec \<and> length dec div 4 \<le> length out)
   \<and> ((\<exists>out'. R32G8_loop dec 0 0 out = Inr out')
      \<longleftrightarrow> 3 dvd length dec \<and> length dec div 3 * 2 \<le> length out)
   \<and> ((\<exists>out'. R24G8_loop dec 0 0 out = Inr out')
      \<longleftrightarrow> 12 dvd length dec \<and> length dec div 12 * 2 \<le> length out)"
proof -
  have RG16_loop: "(\<exists>out'. RG16_loop dec 0 0 out = Inr out') \<longleftrightarrow> 4 dvd length dec \<and> length dec div 4 * 2 \<le> length out"
  proof
    assume "\<exists>out'. RG16_loop dec 0 0 out = Inr out'"
    then obtain out' where "RG16_loop dec 0 0 out = Inr out'" by blast
    from RG16_loop_Inr_D [OF this] obtain n where n: "length dec = 4 * n" "n = 0 \<or> (0 + n) * 2 \<le> length out"
      by auto
    from n(1) have "length dec div 4 = n" by simp
    with n show "4 dvd length dec \<and> length dec div 4 * 2 \<le> length out" by auto
  next
    assume a: "4 dvd length dec \<and> length dec div 4 * 2 \<le> length out"
    then obtain n where n: "length dec = 4 * n" by (auto simp add: dvd_def)
    then have "length dec = 0 + 4 * n" "(0 + n) * 2 \<le> length out" using a by simp_all
    from RG16_loop_run [OF this] show "\<exists>out'. RG16_loop dec 0 0 out = Inr out'" by blast
  qed
  have R16_loop: "(\<exists>out'. R16_loop dec 0 0 out = Inr out') \<longleftrightarrow> 4 dvd length dec \<and> length dec div 4 \<le> length out"
  proof
    assume "\<exists>out'. R16_loop dec 0 0 out = Inr out'"
    then obtain out' where "R16_loop dec 0 0 out = Inr out'" by blast
    from R16_loop_Inr_D [OF this] obtain n where n: "length dec = 4 * n" "n = 0 \<or> 0 + n \<le> length out"
      by auto
    from n(1) have "length dec div 4 = n" by simp
    with n show "4 dvd length dec \<and> length dec div 4 \<le> length out" by auto
  next
    assume a: "4 dvd length dec \<and> length dec div 4 \<le> length out"
    then obtain n where n: "length dec = 4 * n" by (auto simp add: dvd_def)
    then have "length dec = 0 + 4 * n" "0 + n \<le> length out" using a by simp_all
    from R16_loop_run [OF this] show "\<exists>out'. R16_loop dec 0 0 out = Inr out'" by blast
  qed
  have R32_loop: "(\<exists>out'. R32_loop dec 0 0 out = Inr out') \<longleftrightarrow> 4 dvd length dec \<and> length dec div 4 \<le> length out"
  proof
    assume "\<exists>out'. R32_loop dec 0 0 out = Inr out'"
    then obtain out' where "R32_loop dec 0 0 out = Inr out'" by blast
    from R32_loop_Inr_D [OF this] obtain n where n: "length dec = 4 * n" "n = 0 \<or> 0 + n \<le> length out"
      by auto
    from n(1) have "length dec div 4 = n" by simp
    with n show "4 dvd length dec \<and> length dec div 4 \<le> length out" by auto
  next
    assume a: "4 dvd length dec \<and> length dec div 4 \<le> length out"
    then obtain n where n: "length dec = 4 * n" by (auto simp add: dvd_def)
    then have "length dec = 0 + 4 * n" "0 + n \<le> length out" using a by simp_all
    from R32_loop_run [OF this] show "\<exists>out'. R32_loop dec 0 0 out = Inr out'" by blast
  qed
  have R32G8_loop: "(\<exists>out'. R32G8_loop dec 0 0 out = Inr out') \<longleftrightarrow> 3 dvd length dec \<and> length dec div 3 * 2 \<le> length out"
  proof
    assume "\<exists>out'. R32G8_loop dec 0 0 out = Inr out'"
    then obtain out' where "R32G8_loop dec 0 0 out = Inr out'" by blast
    from R32G8_loop_Inr_D [OF this] obtain n where n: "length dec = 3 * n" "n = 0 \<or> (0 + n) * 2 \<le> length out"
      by auto
    from n(1) have "length dec div 3 = n" by simp
    with n show "3 dvd length dec \<and> length dec div 3 * 2 \<le> length out" by auto
  next
    assume a: "3 dvd length dec \<and> length dec div 3 * 2 \<le> length out"
    then obtain n where n: "length dec = 3 * n" by (auto simp add: dvd_def)
    then have "length dec = 0 + 3 * n" "(0 + n) * 2 \<le> length out" using a by simp_all
    from R32G8_loop_run [OF this] show "\<exists>out'. R32G8_loop dec 0 0 out = Inr out'" by blast
  qed
  have R24G8_loop: "(\<exists>out'. R24G8_loop dec 0 0 out = Inr out') \<longleftrightarrow> 12 dvd length dec \<and> length dec div 12 * 2 \<le> length out"
  proof
    assume "\<exists>out'. R24G8_loop dec 0 0 out = Inr out'"
    then obtain out' where "R24G8_loop dec 0 0 out = Inr out'" by blast
    from R24G8_loop_Inr_D [OF this] obtain n where n: "length dec = 12 * n" "n = 0 \<or> (0 + n) * 2 \<le> length out"
      by auto
    from n(1) have "length dec div 12 = n" by simp
    with n show "12 dvd length dec \<and> length dec div 12 * 2 \<le> length out" by auto
  next
    assume a: "12 dvd length dec \<and> length dec div 12 * 2 \<le> length out"
    then obtain n where n: "length dec = 12 * n" by (auto simp add: dvd_def)
    then have "length dec = 0 + 12 * n" "(0 + n) * 2 \<le> length out" using a by simp_all
    from R24G8_loop_run [OF this] show "\<exists>out'. R24G8_loop dec 0 0 out = Inr out'" by blast
  qed
  show ?thesis
    by (intro conjI RG16_loop R16_loop R32_loop R32G8_loop R24G8_loop)
qed

subsection \<open>Reads, buffers and the green channel\<close>

lemma unat_rd16:
  assumes "p + 2 \<le> length m"
  shows "unat (rd16 m p) = unat (m ! p) + 256 * unat (m ! (p + 1))"
proof -
  have d: "drop p m = m ! p # m ! (p + 1) # drop (p + 2) m"
    using assms by (simp add: Cons_nth_drop_Suc)
  have v: "le_nat (take 2 (drop p m)) = unat (m ! p) + 256 * unat (m ! (p + 1))"
    by (simp add: d le_nat_def)
  have "unat (m ! p) < 256" "unat (m ! (p + 1)) < 256"
    using unsigned_less [of "m ! p"] unsigned_less [of "m ! (p + 1)"] by simp_all
  then have b: "unat (m ! p) + 256 * unat (m ! (p + 1)) < 2 ^ 16" by simp
  have "unat (rd16 m p) = le_nat (take 2 (drop p m)) mod 2 ^ LENGTH(16)"
    unfolding rd16_def by (rule unat_of_nat)
  also have "\<dots> = unat (m ! p) + 256 * unat (m ! (p + 1))"
    using b by (simp only: v) simp
  finally show ?thesis .
qed

lemma unat_rd16_le: "unat (rd16 m p) \<le> 65535"
proof -
  have "unat (rd16 m p) < 2 ^ LENGTH(16)" by (rule unsigned_less)
  then show ?thesis by simp
qed

lemma R24G8_green_zero: "R24G8_green pix = 0"
  unfolding R24G8_green_def
  by (rule bit_word_eqI) (auto simp add: bit_simps)

lemma length_new_array [simp]: "length (new_array e n) = n"
  by (simp add: new_array_def)

lemma length_memcpy: "n \<le> length src \<Longrightarrow> n \<le> length dst \<Longrightarrow> length (memcpy dst src n) = length dst"
  by (simp add: memcpy_def)

lemma length_decompress [simp]:
  "length (snd (decompress e compHeader pData)) = unat (decompressedSize compHeader)"
  by (simp add: decompress_def Let_def split: prod.split) (simp add: length_memcpy)

lemma R16_loop_result:
  assumes "length dec = 4 * n" "n \<le> length out"
  shows "R16_loop dec 0 0 out
         = Inr (map (\<lambda>k. rescale (unat (rd16 dec (4 * k))) UINT16_MAX) [0..<n] @ drop n out)"
proof -
  from R16_loop_run [of dec 0 n 0 out] assms obtain out' where o:
    "R16_loop dec 0 0 out = Inr out'" "length out' = length out"
    "\<forall>k<n. out' ! k = rescale (unat (rd16 dec (4 * k))) UINT16_MAX"
    "\<forall>m\<ge>n. out' ! m = out ! m"
    by auto
  have "out' = map (\<lambda>k. rescale (unat (rd16 dec (4 * k))) UINT16_MAX) [0..<n] @ drop n out"
  proof (rule nth_equalityI)
    show "length out' = length (map (\<lambda>k. rescale (unat (rd16 dec (4 * k))) UINT16_MAX) [0..<n] @ drop n out)"
      using o(2) assms(2) by simp
  next
    fix m
    assume m: "m < length out'"
    show "out' ! m = (map (\<lambda>k. rescale (unat (rd16 dec (4 * k))) UINT16_MAX) [0..<n] @ drop n out) ! m"
    proof (cases "m < n")
      case True
      then show ?thesis using o(3) by (simp add: nth_append)
    next
      case False
      then show ?thesis using o(4) o(2) m assms(2) by (simp add: nth_append)
    qed
  qed
  with o(1) show ?thesis by simp
qed

lemma R32_loop_result:
  assumes "length dec = 4 * n" "n \<le> length out"
  shows "R32_loop dec 0 0 out
         = Inr (map (\<lambda>k. rescale (unat (rd16 dec (4 * k))) UINT_MAX) [0..<n] @ drop n out)"
proof -
  from R32_loop_run [of dec 0 n 0 out] assms obtain out' where o:
    "R32_loop dec 0 0 out = Inr out'" "length out' = length out"
    "\<forall>k<n. out' ! k = rescale (unat (rd16 dec (4 * k))) UINT_MAX"
    "\<forall>m\<ge>n. out' ! m = out ! m"
    by auto
  have "out' = map (\<lambda>k. rescale (unat (rd16 dec (4 * k))) UINT_MAX) [0..<n] @ drop n out"
  proof (rule nth_equalityI)
    show "length out' = length (map (\<lambda>k. rescale (unat (rd16 dec (4 * k))) UINT_MAX) [0..<n] @ drop n out)"
      using o(2) assms(2) by simp
  next
    fix m
    assume m: "m < length out'"
    show "out' ! m = (map (\<lambda>k. rescale (unat (rd16 dec (4 * k))) UINT_MAX) [0..<n] @ drop n out) ! m"
    proof (cases "m < n")
      case True
      then show ?thesis using o(3) by (simp add: nth_append)
    next
      case False
      then show ?thesis using o(4) o(2) m assms(2) by (simp add: nth_append)
    qed
  qed
  with o(1) show ?thesis by simp
qed

lemma rd16_cong:
  assumes "p + 2 \<le> length m" "length m' = length m"
    and "m' ! p = m ! p" "m' ! (p + 1) = m ! (p + 1)"
  shows "rd16 m' p = rd16 m p"
proof -
  have "unat (rd16 m' p) = unat (rd16 m p)"
    using assms by (simp add: unat_rd16)
  then show ?thesis by (simp only: word_unat_eq_iff)
qed

lemma first_words_cong:
  assumes "length dec' = length dec" "length dec = 4 * n"
    and "\<forall>k<n. dec' ! (4 * k) = dec ! (4 * k) \<and> dec' ! (4 * k + 1) = dec ! (4 * k + 1)"
  shows "map (\<lambda>k. f (rd16 dec' (4 * k))) [0..<n] = map (\<lambda>k. f (rd16 dec (4 * k))) [0..<n]"
proof (rule map_cong [OF refl])
  fix k
  assume "k \<in> set [0..<n]"
  then have k: "k < n" by simp
  then have "4 * k + 2 \<le> length dec" using assms(2) by simp
  moreover have "dec' ! (4 * k) = dec ! (4 * k)" "dec' ! (4 * k + 1) = dec ! (4 * k + 1)"
    using assms(3) k by simp_all
  ultimately have "rd16 dec' (4 * k) = rd16 dec (4 * k)"
    using assms(1) by (intro rd16_cong) simp_all
  then show "f (rd16 dec' (4 * k)) = f (rd16 dec (4 * k))" by simp
qed

subsection \<open>The switch and the pipeline\<close>

lemma after_loop_Pixels: "after_loop c r = Pixels n buf \<longleftrightarrow> r = Inr buf \<and> n = c"
  by (cases r) (auto simp add: after_loop_def)

lemma after_BC_Pixels:
  assumes "after_BC (DecompressBC e source t) = Pixels n buf"
  shows "n = (if TCOLayout_of (layout t) = Some BC4 then 1
              else if TCOLayout_of (layout t) = Some BC5 then 2 else 4)
         \<and> length buf = unat ((width t * height t) * n)"
  using assms
  by (auto simp add: after_BC_def DecompressBC_def Let_def length_memcpy
      split: bc_result.splits if_splits)

lemma length_new_pixels [simp]:
  "length (new_pixels e t c) = unat ((width t * height t) * c)"
  by (simp add: new_pixels_def)

text \<open>What the switch has produced when it hands a buffer on.\<close>

lemma unpack_PixelsD:
  assumes "unpack e t dec = Pixels n buf"
  shows "\<exists>lay. TCOLayout_of (layout t) = Some lay \<and> spec_channels lay = Some n
           \<and> (if passthrough lay then buf = dec
               else length buf = unat ((width t * height t) * n))"
proof -
  from assms obtain lay where lay: "TCOLayout_of (layout t) = Some lay"
    by (cases "TCOLayout_of (layout t)") (auto simp add: unpack_def)
  have "spec_channels lay = Some n
        \<and> (if passthrough lay then buf = dec else length buf = unat ((width t * height t) * n))"
  proof (cases lay)
    case BC1
    with assms lay after_BC_Pixels [of e dec t n buf] show ?thesis
      by (simp add: unpack_def passthrough_def)
  next
    case BC2
    with assms lay after_BC_Pixels [of e dec t n buf] show ?thesis
      by (simp add: unpack_def passthrough_def)
  next
    case BC3
    with assms lay after_BC_Pixels [of e dec t n buf] show ?thesis
      by (simp add: unpack_def passthrough_def)
  next
    case BC4
    with assms lay after_BC_Pixels [of e dec t n buf] show ?thesis
      by (simp add: unpack_def passthrough_def)
  next
    case BC5
    with assms lay after_BC_Pixels [of e dec t n buf] show ?thesis
      by (simp add: unpack_def passthrough_def)
  next
    case Not_Used
    with assms lay show ?thesis by (simp add: unpack_def)
  next
    case R11G11B10
    with assms lay show ?thesis by (auto simp add: unpack_def passthrough_def)
  next
    case RGBA8
    with assms lay show ?thesis by (auto simp add: unpack_def passthrough_def)
  next
    case RG16
    with assms lay have "RG16_loop dec 0 0 (new_pixels e t 2) = Inr buf" "n = 2"
      by (simp_all add: unpack_def after_loop_Pixels)
    with RG16_loop_Inr_D [of dec 0 0 "new_pixels e t 2" buf] RG16 show ?thesis
      by (simp add: passthrough_def)
  next
    case R16
    with assms lay have "R16_loop dec 0 0 (new_pixels e t 1) = Inr buf" "n = 1"
      by (simp_all add: unpack_def after_loop_Pixels)
    with R16_loop_Inr_D [of dec 0 0 "new_pixels e t 1" buf] R16 show ?thesis
      by (simp add: passthrough_def)
  next
    case R32
    with assms lay have "R32_loop dec 0 0 (new_pixels e t 1) = Inr buf" "n = 1"
      by (simp_all add: unpack_def after_loop_Pixels)
    with R32_loop_Inr_D [of dec 0 0 "new_pixels e t 1" buf] R32 show ?thesis
      by (simp add: passthrough_def)
  next
    case R32G8
    with assms lay have "R32G8_loop dec 0 0 (new_pixels e t 2) = Inr buf" "n = 2"
      by (simp_all add: unpack_def after_loop_Pixels)
    with R32G8_loop_Inr_D [of dec 0 0 "new_pixels e t 2" buf] R32G8 show ?thesis
      by (simp add: passthrough_def)
  next
    case R24G8
    with assms lay have "R24G8_loop dec 0 0 (new_pixels e t 2) = Inr buf" "n = 2"
      by (simp_all add: unpack_def after_loop_Pixels)
    with R24G8_loop_Inr_D [of dec 0 0 "new_pixels e t 2" buf] R24G8 show ?thesis
      by (simp add: passthrough_def)
  next
    case R8
    with assms lay show ?thesis by (auto simp add: unpack_def passthrough_def)
  qed
  with lay show ?thesis by blast
qed

text \<open>A file reaches the output stage through the headers, LZ4 and the switch.\<close>

lemma decode_output_stageD:
  assumes "output_stage (decode e fName c t pData) = Some call"
  shows "0 < fst (decompress e c pData)
         \<and> unpack e t (snd (decompress e c pData)) = Pixels (out_comp call) (out_data call)
         \<and> out_x call = width t \<and> out_y call = height t \<and> out_flip call = (\<not> flipV t)"
  using assms
  by (auto simp add: decode_def Let_def split: prod.splits if_splits unpacked.splits)

lemma ProcessOneFile_output_stageD:
  assumes "output_stage (ProcessOneFile e fName file) = Some call"
  shows "\<exists>c t pData. read_headers file = Inr (c, t, pData)
           \<and> output_stage (decode e fName c t pData) = Some call"
  using assms
  by (auto simp add: ProcessOneFile_def split: if_splits sum.splits prod.splits)

lemma unat_product:
  "unat ((a * b) * c :: uint32) = (unat a * unat b * unat c) mod 2 ^ 32"
  by (simp add: unat_word_ariths mod_mult_left_eq)

lemmas headers_eval = read_headers_def Read_def sizeof_TCOHeader_def sizeof_BaseHeader_def
  sizeof_CompressedDataHeader_def as_BaseHeader_def as_CompressedDataHeader_def as_TCOHeader_def
  rd32_def le_nat_def

lemma read_headers_file_RGBA8:
  "read_headers file_RGBA8
   = Inr (\<lparr> flag = 4, unk = [0, 0, 0, 0, 0, 0, 0, 0], dataHeaderSize = 24, compressedSize = 5,
            decompressedSize = 4 \<rparr>,
          example_header 7 1 1, [64, 1, 2, 3, 4])"
  by (simp add: headers_eval file_RGBA8_def example_header_def)

lemma read_headers_file_R16:
  "read_headers file_R16
   = Inr (\<lparr> flag = 4, unk = [0, 0, 0, 0, 0, 0, 0, 0], dataHeaderSize = 24, compressedSize = 9,
            decompressedSize = 8 \<rparr>,
          example_header 9 2 1, [128, 255, 255, 7, 7, 0, 128, 9, 9])"
  by (simp add: headers_eval file_R16_def example_header_def)

lemmas decompress_eval = decompress_def example_env_def literal_LZ4_def memcpy_def new_array_def

lemma ProcessOneFile_file_RGBA8:
  "ProcessOneFile example_env fName file_RGBA8
   = Wrote \<lparr> out_filename = ''./Textures_OUT/'' @ fName @ ''.tga'', out_x = 1, out_y = 1,
             out_comp = 4, out_data = [1, 2, 3, 4], out_flip = True \<rparr>"
proof -
  have "file_RGBA8 \<noteq> []" by (simp add: file_RGBA8_def)
  then show ?thesis
    by (simp add: ProcessOneFile_def read_headers_file_RGBA8 decode_def decompress_eval
          unpack_def TCOLayout_of_def example_header_def)
qed

section \<open>The claims\<close>

text \<open>
  Claim C5 (RG16). A payload of \<open>n\<close> pairs of 16-bit little-endian values, with room
  for \<open>n\<close> pixels in the allocated buffer, is unpacked to \<open>n\<close> two-channel
  pixels, and each output byte is \<open>\<lfloor>value / 65535 * 255\<rfloor>\<close>, which is
  \<open>value * 255 div 65535\<close>. In particular 65535 gives 255, 0 gives 0 and 32768
  gives 127.
\<close>

theorem RG16_unpack:
  assumes lay: "TCOLayout_of (layout h) = Some RG16"
    and len: "length dec = 4 * n"
    and room: "n * 2 \<le> unat ((width h * height h) * 2)"
  shows "(\<exists>out. unpack e h dec = Pixels 2 out
           \<and> (\<forall>k<n. unat (out ! (2 * k))
                      = (unat (dec ! (4 * k)) + 256 * unat (dec ! (4 * k + 1))) * 255 div 65535
                  \<and> unat (out ! (2 * k + 1))
                      = (unat (dec ! (4 * k + 2)) + 256 * unat (dec ! (4 * k + 3))) * 255 div 65535))
         \<and> unat (rescale 65535 UINT16_MAX) = 255
         \<and> unat (rescale 0 UINT16_MAX) = 0
         \<and> unat (rescale 32768 UINT16_MAX) = 127"
proof -
  have "(0 + n) * 2 \<le> length (new_pixels e h 2)"
    using room by (simp add: new_pixels_def)
  with RG16_loop_run [of dec 0 n 0 "new_pixels e h 2"] len obtain out where o:
    "RG16_loop dec 0 0 (new_pixels e h 2) = Inr out"
    "\<forall>k<n. out ! (k * 2) = rescale (unat (rd16 dec (4 * k))) UINT16_MAX
           \<and> out ! (k * 2 + 1) = rescale (unat (rd16 dec (4 * k + 2))) UINT16_MAX"
    by auto
  have u: "unpack e h dec = Pixels 2 out"
    by (simp add: unpack_def lay after_loop_def o(1))
  have px: "unat (out ! (2 * k))
              = (unat (dec ! (4 * k)) + 256 * unat (dec ! (4 * k + 1))) * 255 div 65535
            \<and> unat (out ! (2 * k + 1))
              = (unat (dec ! (4 * k + 2)) + 256 * unat (dec ! (4 * k + 3))) * 255 div 65535"
    if k: "k < n" for k
  proof -
    have a: "out ! (2 * k) = rescale (unat (rd16 dec (4 * k))) UINT16_MAX"
      "out ! (2 * k + 1) = rescale (unat (rd16 dec (4 * k + 2))) UINT16_MAX"
      using o(2) k by (simp_all add: mult.commute)
    have "4 * k + 2 \<le> length dec" using k len by simp
    then have r1: "unat (rd16 dec (4 * k)) = unat (dec ! (4 * k)) + 256 * unat (dec ! (4 * k + 1))"
      by (rule unat_rd16)
    have "4 * k + 2 + 2 \<le> length dec" using k len by simp
    then have "unat (rd16 dec (4 * k + 2))
               = unat (dec ! (4 * k + 2)) + 256 * unat (dec ! (4 * k + 2 + 1))"
      by (rule unat_rd16)
    moreover have "4 * k + 2 + 1 = 4 * k + 3" by simp
    ultimately have r2: "unat (rd16 dec (4 * k + 2))
               = unat (dec ! (4 * k + 2)) + 256 * unat (dec ! (4 * k + 3))"
      by (simp only:)
    show ?thesis
      by (simp only: a unat_rescale16 [OF unat_rd16_le]) (simp only: r1 r2)
  qed
  have "unat (rescale 65535 UINT16_MAX) = 255" "unat (rescale 0 UINT16_MAX) = 0"
    "unat (rescale 32768 UINT16_MAX) = 127"
    by (simp_all add: unat_rescale16)
  with u px show ?thesis by blast
qed

theorem RG16_unpack_witness:
  "\<exists>out. unpack example_env (example_header 8 2 1) [255, 255, 0, 0, 0, 128, 1, 1] = Pixels 2 out
     \<and> unat (out ! 0) = 255 \<and> unat (out ! 1) = 0 \<and> unat (out ! 2) = 127 \<and> unat (out ! 3) = 1"
proof -
  have h: "TCOLayout_of (layout (example_header 8 2 1)) = Some RG16"
    "length [255, 255, 0, 0, 0, 128, 1, 1 :: uint8] = 4 * 2"
    "2 * 2 \<le> unat ((width (example_header 8 2 1) * height (example_header 8 2 1)) * 2)"
    by (simp_all add: example_header_def TCOLayout_of_def)
  from RG16_unpack [OF h, of example_env] obtain out where o:
    "unpack example_env (example_header 8 2 1) [255, 255, 0, 0, 0, 128, 1, 1] = Pixels 2 out"
    "\<forall>k<2. unat (out ! (2 * k))
        = (unat ([255, 255, 0, 0, 0, 128, 1, 1 :: uint8] ! (4 * k))
           + 256 * unat ([255, 255, 0, 0, 0, 128, 1, 1 :: uint8] ! (4 * k + 1))) * 255 div 65535
      \<and> unat (out ! (2 * k + 1))
        = (unat ([255, 255, 0, 0, 0, 128, 1, 1 :: uint8] ! (4 * k + 2))
           + 256 * unat ([255, 255, 0, 0, 0, 128, 1, 1 :: uint8] ! (4 * k + 3))) * 255 div 65535"
    by blast
  from o(2) [rule_format, of 0] o(2) [rule_format, of 1]
  have "unat (out ! 0) = 255 \<and> unat (out ! 1) = 0 \<and> unat (out ! 2) = 127 \<and> unat (out ! 3) = 1"
    by simp
  with o(1) show ?thesis by blast
qed

text \<open>
  Claim C4 (R16). The loop advances by two 16-bit words (4 bytes) for each output
  pixel and converts the first word of each pair to \<open>\<lfloor>value / 65535 * 255\<rfloor>\<close>; a
  payload that differs in the second words only gives the same pixels.
\<close>

theorem R16_unpack:
  assumes lay: "TCOLayout_of (layout h) = Some R16"
    and len: "length dec = 4 * n"
    and room: "n \<le> unat ((width h * height h) * 1)"
  shows "\<exists>out. unpack e h dec = Pixels 1 out
          \<and> (\<forall>k<n. unat (out ! k)
                     = (unat (dec ! (4 * k)) + 256 * unat (dec ! (4 * k + 1))) * 255 div 65535)
          \<and> (\<forall>dec'. length dec' = length dec
                  \<and> (\<forall>k<n. dec' ! (4 * k) = dec ! (4 * k) \<and> dec' ! (4 * k + 1) = dec ! (4 * k + 1))
                \<longrightarrow> unpack e h dec' = Pixels 1 out)"
proof -
  define new where "new = new_pixels e h 1"
  define out where
    "out = map (\<lambda>k. rescale (unat (rd16 dec (4 * k))) UINT16_MAX) [0..<n] @ drop n new"
  have r: "n \<le> length new" using room by (simp add: new_def new_pixels_def)
  have u: "unpack e h dec = Pixels 1 out"
    using R16_loop_result [OF len r]
    by (simp add: unpack_def lay after_loop_def out_def new_def)
  have px: "unat (out ! k)
              = (unat (dec ! (4 * k)) + 256 * unat (dec ! (4 * k + 1))) * 255 div 65535"
    if k: "k < n" for k
  proof -
    have a: "out ! k = rescale (unat (rd16 dec (4 * k))) UINT16_MAX"
      using k by (simp add: out_def nth_append)
    have "4 * k + 2 \<le> length dec" using k len by simp
    then have r1: "unat (rd16 dec (4 * k)) = unat (dec ! (4 * k)) + 256 * unat (dec ! (4 * k + 1))"
      by (rule unat_rd16)
    show ?thesis
      by (simp only: a unat_rescale16 [OF unat_rd16_le]) (simp only: r1)
  qed
  have same: "unpack e h dec' = Pixels 1 out"
    if d: "length dec' = length dec"
      "\<forall>k<n. dec' ! (4 * k) = dec ! (4 * k) \<and> dec' ! (4 * k + 1) = dec ! (4 * k + 1)" for dec'
  proof -
    have len': "length dec' = 4 * n" using d(1) len by simp
    have "map (\<lambda>k. rescale (unat (rd16 dec' (4 * k))) UINT16_MAX) [0..<n]
          = map (\<lambda>k. rescale (unat (rd16 dec (4 * k))) UINT16_MAX) [0..<n]"
      using d(1) len d(2) by (rule first_words_cong)
    then show ?thesis
      using R16_loop_result [OF len' r]
      by (simp add: unpack_def lay after_loop_def out_def new_def)
  qed
  from u px same show ?thesis by blast
qed

theorem R16_unpack_witness:
  "\<exists>out. unpack example_env (example_header 9 2 1) [255, 255, 7, 7, 0, 128, 9, 9] = Pixels 1 out
     \<and> unat (out ! 0) = 255 \<and> unat (out ! 1) = 127
     \<and> unpack example_env (example_header 9 2 1) [255, 255, 0, 0, 0, 128, 0, 0] = Pixels 1 out"
proof -
  have h: "TCOLayout_of (layout (example_header 9 2 1)) = Some R16"
    "length [255, 255, 7, 7, 0, 128, 9, 9 :: uint8] = 4 * 2"
    "2 \<le> unat ((width (example_header 9 2 1) * height (example_header 9 2 1)) * 1)"
    by (simp_all add: example_header_def TCOLayout_of_def)
  from R16_unpack [OF h, of example_env] obtain out where o:
    "unpack example_env (example_header 9 2 1) [255, 255, 7, 7, 0, 128, 9, 9] = Pixels 1 out"
    "\<forall>k<2. unat (out ! k)
        = (unat ([255, 255, 7, 7, 0, 128, 9, 9 :: uint8] ! (4 * k))
           + 256 * unat ([255, 255, 7, 7, 0, 128, 9, 9 :: uint8] ! (4 * k + 1))) * 255 div 65535"
    "\<forall>dec'. length dec' = length [255, 255, 7, 7, 0, 128, 9, 9 :: uint8]
        \<and> (\<forall>k<2. dec' ! (4 * k) = [255, 255, 7, 7, 0, 128, 9, 9 :: uint8] ! (4 * k)
                 \<and> dec' ! (4 * k + 1) = [255, 255, 7, 7, 0, 128, 9, 9 :: uint8] ! (4 * k + 1))
        \<longrightarrow> unpack example_env (example_header 9 2 1) dec' = Pixels 1 out"
    by blast
  from o(2) [rule_format, of 0] o(2) [rule_format, of 1]
  have v: "unat (out ! 0) = 255 \<and> unat (out ! 1) = 127" by simp
  have "\<forall>k<2. [255, 255, 0, 0, 0, 128, 0, 0 :: uint8] ! (4 * k)
              = [255, 255, 7, 7, 0, 128, 9, 9 :: uint8] ! (4 * k)
            \<and> [255, 255, 0, 0, 0, 128, 0, 0 :: uint8] ! (4 * k + 1)
              = [255, 255, 7, 7, 0, 128, 9, 9 :: uint8] ! (4 * k + 1)"
    by (simp add: less_Suc_eq numeral_2_eq_2)
  with o(3) [rule_format, of "[255, 255, 0, 0, 0, 128, 0, 0]"]
  have "unpack example_env (example_header 9 2 1) [255, 255, 0, 0, 0, 128, 0, 0] = Pixels 1 out"
    by simp
  with o(1) v show ?thesis by blast
qed

text \<open>
  Claim C3 (R32). The loop has the stride of R16 (4 bytes for each output pixel) and
  reads the first 16-bit word of each pair; the byte stored is that value divided by
  \<^verbatim>\<open>UINT_MAX\<close> and multiplied by 255, which is 0 for every 16-bit value.
\<close>

theorem R32_unpack:
  assumes lay: "TCOLayout_of (layout h) = Some R32"
    and len: "length dec = 4 * n"
    and room: "n \<le> unat ((width h * height h) * 1)"
  shows "(\<exists>out. unpack e h dec = Pixels 1 out
          \<and> (\<forall>k<n. out ! k = rescale (unat (rd16 dec (4 * k))) UINT_MAX
                 \<and> unat (out ! k)
                     = (unat (dec ! (4 * k)) + 256 * unat (dec ! (4 * k + 1))) * 255 div 4294967295
                 \<and> out ! k = 0)
          \<and> (\<forall>dec'. length dec' = length dec
                  \<and> (\<forall>k<n. dec' ! (4 * k) = dec ! (4 * k) \<and> dec' ! (4 * k + 1) = dec ! (4 * k + 1))
                \<longrightarrow> unpack e h dec' = Pixels 1 out))
         \<and> (\<forall>w :: uint16. rescale (unat w) UINT_MAX = 0)"
proof -
  define new where "new = new_pixels e h 1"
  define out where
    "out = map (\<lambda>k. rescale (unat (rd16 dec (4 * k))) UINT_MAX) [0..<n] @ drop n new"
  have r: "n \<le> length new" using room by (simp add: new_def new_pixels_def)
  have z: "rescale (unat w) UINT_MAX = 0" for w :: uint16
  proof -
    have "unat w < 2 ^ LENGTH(16)" by (rule unsigned_less)
    then have "unat w \<le> 65535" by simp
    then show ?thesis by (rule rescale32_zero)
  qed
  have u: "unpack e h dec = Pixels 1 out"
    using R32_loop_result [OF len r]
    by (simp add: unpack_def lay after_loop_def out_def new_def)
  have px: "out ! k = rescale (unat (rd16 dec (4 * k))) UINT_MAX
            \<and> unat (out ! k)
               = (unat (dec ! (4 * k)) + 256 * unat (dec ! (4 * k + 1))) * 255 div 4294967295
            \<and> out ! k = 0"
    if k: "k < n" for k
  proof -
    have a: "out ! k = rescale (unat (rd16 dec (4 * k))) UINT_MAX"
      using k by (simp add: out_def nth_append)
    have "unat (dec ! (4 * k)) < 2 ^ LENGTH(8)" "unat (dec ! (4 * k + 1)) < 2 ^ LENGTH(8)"
      by (rule unsigned_less)+
    then have "(unat (dec ! (4 * k)) + 256 * unat (dec ! (4 * k + 1))) * 255 < 4294967295"
      by simp
    then have "(unat (dec ! (4 * k)) + 256 * unat (dec ! (4 * k + 1))) * 255 div 4294967295 = 0"
      by (rule div_less)
    with a z [of "rd16 dec (4 * k)"] show ?thesis by simp
  qed
  have same: "unpack e h dec' = Pixels 1 out"
    if d: "length dec' = length dec"
      "\<forall>k<n. dec' ! (4 * k) = dec ! (4 * k) \<and> dec' ! (4 * k + 1) = dec ! (4 * k + 1)" for dec'
  proof -
    have len': "length dec' = 4 * n" using d(1) len by simp
    have "map (\<lambda>k. rescale (unat (rd16 dec' (4 * k))) UINT_MAX) [0..<n]
          = map (\<lambda>k. rescale (unat (rd16 dec (4 * k))) UINT_MAX) [0..<n]"
      using d(1) len d(2) by (rule first_words_cong)
    then show ?thesis
      using R32_loop_result [OF len' r]
      by (simp add: unpack_def lay after_loop_def out_def new_def)
  qed
  from u px same z show ?thesis by blast
qed

theorem R32_unpack_witness:
  "\<exists>out. unpack example_env (example_header 10 2 1) [255, 255, 7, 7, 0, 128, 9, 9] = Pixels 1 out
     \<and> out ! 0 = 0 \<and> out ! 1 = 0"
proof -
  have h: "TCOLayout_of (layout (example_header 10 2 1)) = Some R32"
    "length [255, 255, 7, 7, 0, 128, 9, 9 :: uint8] = 4 * 2"
    "2 \<le> unat ((width (example_header 10 2 1) * height (example_header 10 2 1)) * 1)"
    by (simp_all add: example_header_def TCOLayout_of_def)
  from R32_unpack [OF h, of example_env] obtain out where o:
    "unpack example_env (example_header 10 2 1) [255, 255, 7, 7, 0, 128, 9, 9] = Pixels 1 out"
    "\<forall>k<2. out ! k = 0"
    by blast
  from o(2) [rule_format, of 0] o(2) [rule_format, of 1] o(1) show ?thesis by simp
qed

text \<open>
  Claim C1 (R24G8). The loop reads one 32-bit word of each 12-byte group and stores
  the rescaled upper 24 bits as the red byte. The green byte is
  \<^verbatim>\<open>(pix << 0x18) & 0xFF\<close>, which is 0 for every word and not byte 0 of the word:
  for the word \<^verbatim>\<open>0xAABBCCDD\<close> the pixel stored is (170, 0), not (170, 0xDD).
\<close>

theorem R24G8_green_is_zero:
  "unpack example_env (example_header 12 1 1) [0xDD, 0xCC, 0xBB, 0xAA, 0, 0, 0, 0, 0, 0, 0, 0]
     = Pixels 2 [170, 0]
   \<and> rd32 [0xDD, 0xCC, 0xBB, 0xAA, 0, 0, 0, 0, 0, 0, 0, 0] 0 = 0xAABBCCDD
   \<and> R24G8_red 0xAABBCCDD = 0xAABBCC00
   \<and> R24G8_green 0xAABBCCDD = 0
   \<and> R24G8_green 0xAABBCCDD \<noteq> 0xDD"
proof -
  have w: "rd32 [0xDD, 0xCC, 0xBB, 0xAA, 0, 0, 0, 0, 0, 0, 0, 0] 0 = 0xAABBCCDD"
    by (simp add: rd32_def le_nat_def)
  have r: "R24G8_red 0xAABBCCDD = 0xAABBCC00"
    by (simp add: R24G8_red_def)
  have g: "R24G8_green 0xAABBCCDD = 0" by (rule R24G8_green_zero)
  have "(0 + 1) * 2 \<le> length (new_pixels example_env (example_header 12 1 1) 2)"
    by (simp add: new_pixels_def example_header_def)
  with R24G8_loop_run [of "[0xDD, 0xCC, 0xBB, 0xAA, 0, 0, 0, 0, 0, 0, 0, 0]" 0 1 0
      "new_pixels example_env (example_header 12 1 1) 2"]
  obtain out where o:
    "R24G8_loop [0xDD, 0xCC, 0xBB, 0xAA, 0, 0, 0, 0, 0, 0, 0, 0] 0 0
       (new_pixels example_env (example_header 12 1 1) 2) = Inr out"
    "length out = 2"
    "out ! 0 = rescale (unat (R24G8_red (rd32 [0xDD, 0xCC, 0xBB, 0xAA, 0, 0, 0, 0, 0, 0, 0, 0] 0)))
                 0xFFFFFF00"
    "out ! 1 = R24G8_green (rd32 [0xDD, 0xCC, 0xBB, 0xAA, 0, 0, 0, 0, 0, 0, 0, 0] 0)"
    by (auto simp add: new_pixels_def example_header_def)
  have "out ! 0 = 170" unfolding o(3) w r by (rule rescale24_example)
  moreover have "out ! 1 = 0" unfolding o(4) w g by simp
  ultimately have "out = [170, 0]"
    using o(2) by (auto simp add: list_eq_iff_nth_eq less_Suc_eq numeral_2_eq_2)
  then have "unpack example_env (example_header 12 1 1) [0xDD, 0xCC, 0xBB, 0xAA, 0, 0, 0, 0, 0, 0, 0, 0]
     = Pixels 2 [170, 0]"
    using o(1) by (simp add: unpack_def example_header_def TCOLayout_of_def after_loop_def)
  with w r g show ?thesis by simp
qed

text \<open>
  Claim C6 (passthrough). For the tags RGBA8, R8 and R11G11B10 the buffer handed to
  the writer is the decompressed payload itself, byte for byte; the R11G11B10 tag
  is written as four channels, without any unpacking of bits.
\<close>

theorem passthrough_unchanged:
  assumes hd: "read_headers file = Inr (c, t, pData)"
    and lay: "TCOLayout_of (layout t) = Some lay" "passthrough lay"
    and res: "0 < fst (decompress e c pData)"
  shows "\<exists>call. output_stage (ProcessOneFile e fName file) = Some call
           \<and> out_data call = snd (decompress e c pData)
           \<and> out_comp call = (if lay = R8 then 1 else 4)"
proof -
  have ne: "file \<noteq> []"
    using hd by (auto simp add: read_headers_def sizeof_TCOHeader_def)
  have u: "unpack e t (snd (decompress e c pData))
           = Pixels (if lay = R8 then 1 else 4) (snd (decompress e c pData))"
    using lay by (auto simp add: unpack_def passthrough_def)
  obtain r p where d: "decompress e c pData = (r, p)" by (cases "decompress e c pData")
  with res have r: "\<not> r \<le> 0" by simp
  show ?thesis
    using u r ne by (simp add: ProcessOneFile_def hd decode_def d Let_def)
qed

theorem passthrough_unchanged_witness:
  "\<exists>call. output_stage (ProcessOneFile example_env ''a.tco'' file_RGBA8) = Some call
     \<and> out_data call = [1, 2, 3, 4] \<and> out_comp call = 4"
proof -
  let ?c = "\<lparr> flag = 4, unk = [0, 0, 0, 0, 0, 0, 0, 0], dataHeaderSize = 24,
              compressedSize = 5, decompressedSize = 4 \<rparr>"
  have h: "TCOLayout_of (layout (example_header 7 1 1)) = Some RGBA8" "passthrough RGBA8"
    "0 < fst (decompress example_env ?c [64, 1, 2, 3, 4])"
    by (simp_all add: TCOLayout_of_def example_header_def passthrough_def decompress_eval)
  have p: "snd (decompress example_env ?c [64, 1, 2, 3, 4]) = [1, 2, 3, 4]"
    by (simp add: decompress_eval)
  from passthrough_unchanged [OF read_headers_file_RGBA8 h, of "''a.tco''"] p
  show ?thesis by simp
qed

text \<open>
  Claim C7 (channel count). The number of channels is fixed by the layout tag and is
  the one of the table: 4 for BC1, BC2, BC3, R11G11B10 and RGBA8, 2 for BC5, RG16,
  R32G8 and R24G8, 1 for BC4, R16, R32 and R8. First, a file that reaches the output
  stage hands the writer the count of its tag. Second, for every tag of the table the
  switch produces a buffer with that count: for the block layouts when the block
  decoder returns an image, for the passthrough layouts always, for the unpacked
  layouts when the payload is a whole number of strides and the allocated buffer has
  room for the pixels. Third, what the switch produces after a successful
  decompression is what the writer gets.
\<close>

theorem channels_by_layout:
  "(output_stage (ProcessOneFile e fName file) = Some call \<longrightarrow>
      (\<exists>c t pData lay. read_headers file = Inr (c, t, pData)
          \<and> TCOLayout_of (layout t) = Some lay
          \<and> spec_channels lay = Some (out_comp call)))
   \<and> (TCOLayout_of (layout t) = Some lay
        \<and> ((lay \<in> {BC1, BC2, BC3, BC4, BC5}
               \<and> DirectX_Decompress e (layout t) (width t) (height t) (numMips t) dec
                   = BCImage pixels)
            \<or> passthrough lay
            \<or> (lay = RG16 \<and> length dec = 4 * k \<and> k * 2 \<le> unat ((width t * height t) * 2))
            \<or> (lay \<in> {R16, R32} \<and> length dec = 4 * k \<and> k \<le> unat ((width t * height t) * 1))
            \<or> (lay = R32G8 \<and> length dec = 3 * k \<and> k * 2 \<le> unat ((width t * height t) * 2))
            \<or> (lay = R24G8 \<and> length dec = 12 * k \<and> k * 2 \<le> unat ((width t * height t) * 2)))
      \<longrightarrow> (\<exists>n buf. spec_channels lay = Some n \<and> unpack e t dec = Pixels n buf))
   \<and> (read_headers file = Inr (c, t, pData) \<and> 0 < fst (decompress e c pData)
        \<and> unpack e t (snd (decompress e c pData)) = Pixels n buf
      \<longrightarrow> (\<exists>call'. output_stage (ProcessOneFile e fName file) = Some call'
             \<and> out_comp call' = n \<and> out_data call' = buf))"
proof -
  have p1: "\<exists>c t pData lay. read_headers file = Inr (c, t, pData)
          \<and> TCOLayout_of (layout t) = Some lay
          \<and> spec_channels lay = Some (out_comp call)"
    if a: "output_stage (ProcessOneFile e fName file) = Some call"
  proof -
    from ProcessOneFile_output_stageD [OF a] obtain c t pData where
      h: "read_headers file = Inr (c, t, pData)"
      and d: "output_stage (decode e fName c t pData) = Some call"
      by blast
    from decode_output_stageD [OF d]
    have "unpack e t (snd (decompress e c pData)) = Pixels (out_comp call) (out_data call)"
      by simp
    from unpack_PixelsD [OF this] h show ?thesis by blast
  qed
  have bc: "\<exists>n buf. spec_channels lay = Some n \<and> unpack e t dec = Pixels n buf"
    if "TCOLayout_of (layout t) = Some lay" "lay \<in> {BC1, BC2, BC3, BC4, BC5}"
      "DirectX_Decompress e (layout t) (width t) (height t) (numMips t) dec = BCImage pixels"
    using that by (auto simp add: unpack_def after_BC_def DecompressBC_def Let_def)
  have pt: "\<exists>n buf. spec_channels lay = Some n \<and> unpack e t dec = Pixels n buf"
    if "TCOLayout_of (layout t) = Some lay" "passthrough lay"
    using that by (auto simp add: unpack_def passthrough_def)
  have rg16: "\<exists>n buf. spec_channels lay = Some n \<and> unpack e t dec = Pixels n buf"
    if "TCOLayout_of (layout t) = Some lay" "lay = RG16" "length dec = 4 * k"
      "k * 2 \<le> unat ((width t * height t) * 2)"
  proof -
    have "length dec = 0 + 4 * k" "(0 + k) * 2 \<le> length (new_pixels e t 2)"
      using that by simp_all
    from RG16_loop_run [OF this] obtain out where
      "RG16_loop dec 0 0 (new_pixels e t 2) = Inr out" by blast
    with that show ?thesis by (simp add: unpack_def after_loop_def)
  qed
  have r16: "\<exists>n buf. spec_channels lay = Some n \<and> unpack e t dec = Pixels n buf"
    if "TCOLayout_of (layout t) = Some lay" "lay \<in> {R16, R32}" "length dec = 4 * k"
      "k \<le> unat ((width t * height t) * 1)"
  proof -
    have l: "length dec = 0 + 4 * k" "0 + k \<le> length (new_pixels e t 1)"
      using that by simp_all
    from R16_loop_run [OF l] obtain out where
      a: "R16_loop dec 0 0 (new_pixels e t 1) = Inr out" by blast
    from R32_loop_run [OF l] obtain out' where
      b: "R32_loop dec 0 0 (new_pixels e t 1) = Inr out'" by blast
    from that a b show ?thesis by (auto simp add: unpack_def after_loop_def)
  qed
  have r32g8: "\<exists>n buf. spec_channels lay = Some n \<and> unpack e t dec = Pixels n buf"
    if "TCOLayout_of (layout t) = Some lay" "lay = R32G8" "length dec = 3 * k"
      "k * 2 \<le> unat ((width t * height t) * 2)"
  proof -
    have "length dec = 0 + 3 * k" "(0 + k) * 2 \<le> length (new_pixels e t 2)"
      using that by simp_all
    from R32G8_loop_run [OF this] obtain out where
      "R32G8_loop dec 0 0 (new_pixels e t 2) = Inr out" by blast
    with that show ?thesis by (simp add: unpack_def after_loop_def)
  qed
  have r24g8: "\<exists>n buf. spec_channels lay = Some n \<and> unpack e t dec = Pixels n buf"
    if "TCOLayout_of (layout t) = Some lay" "lay = R24G8" "length dec = 12 * k"
      "k * 2 \<le> unat ((width t * height t) * 2)"
  proof -
    have "length dec = 0 + 12 * k" "(0 + k) * 2 \<le> length (new_pixels e t 2)"
      using that by simp_all
    from R24G8_loop_run [OF this] obtain out where
      "R24G8_loop dec 0 0 (new_pixels e t 2) = Inr out" by blast
    with that show ?thesis by (simp add: unpack_def after_loop_def)
  qed
  have p3: "\<exists>call'. output_stage (ProcessOneFile e fName file) = Some call'
             \<and> out_comp call' = n \<and> out_data call' = buf"
    if hd: "read_headers file = Inr (c, t, pData)" and res: "0 < fst (decompress e c pData)"
      and u: "unpack e t (snd (decompress e c pData)) = Pixels n buf"
  proof -
    have ne: "file \<noteq> []"
      using hd by (auto simp add: read_headers_def sizeof_TCOHeader_def)
    obtain r p where d: "decompress e c pData = (r, p)" by (cases "decompress e c pData")
    with res have r: "\<not> r \<le> 0" by simp
    from u d have "unpack e t p = Pixels n buf" by simp
    then show ?thesis
      using r ne by (simp add: ProcessOneFile_def hd decode_def d Let_def)
  qed
  show ?thesis
  proof (intro conjI impI)
    assume "output_stage (ProcessOneFile e fName file) = Some call"
    then show "\<exists>c t pData lay. read_headers file = Inr (c, t, pData)
          \<and> TCOLayout_of (layout t) = Some lay
          \<and> spec_channels lay = Some (out_comp call)"
      by (rule p1)
  next
    assume a: "TCOLayout_of (layout t) = Some lay
        \<and> ((lay \<in> {BC1, BC2, BC3, BC4, BC5}
               \<and> DirectX_Decompress e (layout t) (width t) (height t) (numMips t) dec
                   = BCImage pixels)
            \<or> passthrough lay
            \<or> (lay = RG16 \<and> length dec = 4 * k \<and> k * 2 \<le> unat ((width t * height t) * 2))
            \<or> (lay \<in> {R16, R32} \<and> length dec = 4 * k \<and> k \<le> unat ((width t * height t) * 1))
            \<or> (lay = R32G8 \<and> length dec = 3 * k \<and> k * 2 \<le> unat ((width t * height t) * 2))
            \<or> (lay = R24G8 \<and> length dec = 12 * k \<and> k * 2 \<le> unat ((width t * height t) * 2)))"
    from a have l: "TCOLayout_of (layout t) = Some lay" by (rule conjunct1)
    from a have "(lay \<in> {BC1, BC2, BC3, BC4, BC5}
               \<and> DirectX_Decompress e (layout t) (width t) (height t) (numMips t) dec
                   = BCImage pixels)
            \<or> passthrough lay
            \<or> (lay = RG16 \<and> length dec = 4 * k \<and> k * 2 \<le> unat ((width t * height t) * 2))
            \<or> (lay \<in> {R16, R32} \<and> length dec = 4 * k \<and> k \<le> unat ((width t * height t) * 1))
            \<or> (lay = R32G8 \<and> length dec = 3 * k \<and> k * 2 \<le> unat ((width t * height t) * 2))
            \<or> (lay = R24G8 \<and> length dec = 12 * k \<and> k * 2 \<le> unat ((width t * height t) * 2))"
      by (rule conjunct2)
    then show "\<exists>n buf. spec_channels lay = Some n \<and> unpack e t dec = Pixels n buf"
    proof (elim disjE conjE)
      assume "lay \<in> {BC1, BC2, BC3, BC4, BC5}"
        "DirectX_Decompress e (layout t) (width t) (height t) (numMips t) dec = BCImage pixels"
      with l show ?thesis by (rule bc)
    next
      assume "passthrough lay"
      with l show ?thesis by (rule pt)
    next
      assume "lay = RG16" "length dec = 4 * k" "k * 2 \<le> unat ((width t * height t) * 2)"
      with l show ?thesis by (rule rg16)
    next
      assume "lay \<in> {R16, R32}" "length dec = 4 * k" "k \<le> unat ((width t * height t) * 1)"
      with l show ?thesis by (rule r16)
    next
      assume "lay = R32G8" "length dec = 3 * k" "k * 2 \<le> unat ((width t * height t) * 2)"
      with l show ?thesis by (rule r32g8)
    next
      assume "lay = R24G8" "length dec = 12 * k" "k * 2 \<le> unat ((width t * height t) * 2)"
      with l show ?thesis by (rule r24g8)
    qed
  next
    assume "read_headers file = Inr (c, t, pData) \<and> 0 < fst (decompress e c pData)
        \<and> unpack e t (snd (decompress e c pData)) = Pixels n buf"
    then have "read_headers file = Inr (c, t, pData)" "0 < fst (decompress e c pData)"
      "unpack e t (snd (decompress e c pData)) = Pixels n buf"
      by simp_all
    then show "\<exists>call'. output_stage (ProcessOneFile e fName file) = Some call'
             \<and> out_comp call' = n \<and> out_data call' = buf"
      by (rule p3)
  qed
qed

theorem channels_by_layout_witness:
  "(\<exists>buf. unpack example_bc_env (example_header 0 1 1) [] = Pixels 4 buf)
   \<and> (\<exists>buf. unpack example_bc_env (example_header 1 1 1) [] = Pixels 4 buf)
   \<and> (\<exists>buf. unpack example_bc_env (example_header 2 1 1) [] = Pixels 4 buf)
   \<and> (\<exists>buf. unpack example_bc_env (example_header 3 1 1) [] = Pixels 1 buf)
   \<and> (\<exists>buf. unpack example_bc_env (example_header 4 1 1) [] = Pixels 2 buf)
   \<and> (\<exists>buf. unpack example_env (example_header 6 1 1) [1, 2, 3, 4] = Pixels 4 buf)
   \<and> (\<exists>buf. unpack example_env (example_header 7 1 1) [1, 2, 3, 4] = Pixels 4 buf)
   \<and> (\<exists>buf. unpack example_env (example_header 8 1 1) [1, 2, 3, 4] = Pixels 2 buf)
   \<and> (\<exists>buf. unpack example_env (example_header 9 1 1) [1, 2, 3, 4] = Pixels 1 buf)
   \<and> (\<exists>buf. unpack example_env (example_header 10 1 1) [1, 2, 3, 4] = Pixels 1 buf)
   \<and> (\<exists>buf. unpack example_env (example_header 11 1 1) [1, 2, 3] = Pixels 2 buf)
   \<and> (\<exists>buf. unpack example_env (example_header 12 1 1) [1, 2, 3, 4, 5, 6, 7, 8, 9, 10, 11, 12] = Pixels 2 buf)
   \<and> (\<exists>buf. unpack example_env (example_header 13 1 1) [1, 2, 3, 4] = Pixels 1 buf)
   \<and> (\<exists>call. output_stage (ProcessOneFile example_env ''a.tco'' file_RGBA8) = Some call
         \<and> out_comp call = 4 \<and> out_data call = [1, 2, 3, 4]
         \<and> spec_channels RGBA8 = Some (out_comp call))"
proof -
  note ev = TCOLayout_of_def example_header_def example_bc_env_def example_env_def
    passthrough_def
  have w0: "\<exists>buf. unpack example_bc_env (example_header 0 1 1) [] = Pixels 4 buf"
  proof -
    have "\<exists>n buf. spec_channels BC1 = Some n
            \<and> unpack example_bc_env (example_header 0 1 1) [] = Pixels n buf"
      by (rule channels_by_layout [THEN conjunct2, THEN conjunct1, rule_format,
            where pixels = "[9, 9, 9, 9]" and k = 1])
         (simp add: ev)
    then show ?thesis by simp
  qed
  have w1: "\<exists>buf. unpack example_bc_env (example_header 1 1 1) [] = Pixels 4 buf"
  proof -
    have "\<exists>n buf. spec_channels BC2 = Some n
            \<and> unpack example_bc_env (example_header 1 1 1) [] = Pixels n buf"
      by (rule channels_by_layout [THEN conjunct2, THEN conjunct1, rule_format,
            where pixels = "[9, 9, 9, 9]" and k = 1])
         (simp add: ev)
    then show ?thesis by simp
  qed
  have w2: "\<exists>buf. unpack example_bc_env (example_header 2 1 1) [] = Pixels 4 buf"
  proof -
    have "\<exists>n buf. spec_channels BC3 = Some n
            \<and> unpack example_bc_env (example_header 2 1 1) [] = Pixels n buf"
      by (rule channels_by_layout [THEN conjunct2, THEN conjunct1, rule_format,
            where pixels = "[9, 9, 9, 9]" and k = 1])
         (simp add: ev)
    then show ?thesis by simp
  qed
  have w3: "\<exists>buf. unpack example_bc_env (example_header 3 1 1) [] = Pixels 1 buf"
  proof -
    have "\<exists>n buf. spec_channels BC4 = Some n
            \<and> unpack example_bc_env (example_header 3 1 1) [] = Pixels n buf"
      by (rule channels_by_layout [THEN conjunct2, THEN conjunct1, rule_format,
            where pixels = "[9, 9, 9, 9]" and k = 1])
         (simp add: ev)
    then show ?thesis by simp
  qed
  have w4: "\<exists>buf. unpack example_bc_env (example_header 4 1 1) [] = Pixels 2 buf"
  proof -
    have "\<exists>n buf. spec_channels BC5 = Some n
            \<and> unpack example_bc_env (example_header 4 1 1) [] = Pixels n buf"
      by (rule channels_by_layout [THEN conjunct2, THEN conjunct1, rule_format,
            where pixels = "[9, 9, 9, 9]" and k = 1])
         (simp add: ev)
    then show ?thesis by simp
  qed
  have w6: "\<exists>buf. unpack example_env (example_header 6 1 1) [1, 2, 3, 4] = Pixels 4 buf"
  proof -
    have "\<exists>n buf. spec_channels R11G11B10 = Some n
            \<and> unpack example_env (example_header 6 1 1) [1, 2, 3, 4] = Pixels n buf"
      by (rule channels_by_layout [THEN conjunct2, THEN conjunct1, rule_format,
            where pixels = "[9, 9, 9, 9]" and k = 1])
         (simp add: ev)
    then show ?thesis by simp
  qed
  have w7: "\<exists>buf. unpack example_env (example_header 7 1 1) [1, 2, 3, 4] = Pixels 4 buf"
  proof -
    have "\<exists>n buf. spec_channels RGBA8 = Some n
            \<and> unpack example_env (example_header 7 1 1) [1, 2, 3, 4] = Pixels n buf"
      by (rule channels_by_layout [THEN conjunct2, THEN conjunct1, rule_format,
            where pixels = "[9, 9, 9, 9]" and k = 1])
         (simp add: ev)
    then show ?thesis by simp
  qed
  have w8: "\<exists>buf. unpack example_env (example_header 8 1 1) [1, 2, 3, 4] = Pixels 2 buf"
  proof -
    have "\<exists>n buf. spec_channels RG16 = Some n
            \<and> unpack example_env (example_header 8 1 1) [1, 2, 3, 4] = Pixels n buf"
      by (rule channels_by_layout [THEN conjunct2, THEN conjunct1, rule_format,
            where pixels = "[9, 9, 9, 9]" and k = 1])
         (simp add: ev)
    then show ?thesis by simp
  qed
  have w9: "\<exists>buf. unpack example_env (example_header 9 1 1) [1, 2, 3, 4] = Pixels 1 buf"
  proof -
    have "\<exists>n buf. spec_channels R16 = Some n
            \<and> unpack example_env (example_header 9 1 1) [1, 2, 3, 4] = Pixels n buf"
      by (rule channels_by_layout [THEN conjunct2, THEN conjunct1, rule_format,
            where pixels = "[9, 9, 9, 9]" and k = 1])
         (simp add: ev)
    then show ?thesis by simp
  qed
  have w10: "\<exists>buf. unpack example_env (example_header 10 1 1) [1, 2, 3, 4] = Pixels 1 buf"
  proof -
    have "\<exists>n buf. spec_channels R32 = Some n
            \<and> unpack example_env (example_header 10 1 1) [1, 2, 3, 4] = Pixels n buf"
      by (rule channels_by_layout [THEN conjunct2, THEN conjunct1, rule_format,
            where pixels = "[9, 9, 9, 9]" and k = 1])
         (simp add: ev)
    then show ?thesis by simp
  qed
  have w11: "\<exists>buf. unpack example_env (example_header 11 1 1) [1, 2, 3] = Pixels 2 buf"
  proof -
    have "\<exists>n buf. spec_channels R32G8 = Some n
            \<and> unpack example_env (example_header 11 1 1) [1, 2, 3] = Pixels n buf"
      by (rule channels_by_layout [THEN conjunct2, THEN conjunct1, rule_format,
            where pixels = "[9, 9, 9, 9]" and k = 1])
         (simp add: ev)
    then show ?thesis by simp
  qed
  have w12: "\<exists>buf. unpack example_env (example_header 12 1 1) [1, 2, 3, 4, 5, 6, 7, 8, 9, 10, 11, 12] = Pixels 2 buf"
  proof -
    have "\<exists>n buf. spec_channels R24G8 = Some n
            \<and> unpack example_env (example_header 12 1 1) [1, 2, 3, 4, 5, 6, 7, 8, 9, 10, 11, 12] = Pixels n buf"
      by (rule channels_by_layout [THEN conjunct2, THEN conjunct1, rule_format,
            where pixels = "[9, 9, 9, 9]" and k = 1])
         (simp add: ev)
    then show ?thesis by simp
  qed
  have w13: "\<exists>buf. unpack example_env (example_header 13 1 1) [1, 2, 3, 4] = Pixels 1 buf"
  proof -
    have "\<exists>n buf. spec_channels R8 = Some n
            \<and> unpack example_env (example_header 13 1 1) [1, 2, 3, 4] = Pixels n buf"
      by (rule channels_by_layout [THEN conjunct2, THEN conjunct1, rule_format,
            where pixels = "[9, 9, 9, 9]" and k = 1])
         (simp add: ev)
    then show ?thesis by simp
  qed
  let ?c = "\<lparr> flag = 4, unk = [0, 0, 0, 0, 0, 0, 0, 0], dataHeaderSize = 24,
              compressedSize = 5, decompressedSize = 4 \<rparr>"
  have d: "decompress example_env ?c [64, 1, 2, 3, 4] = (4, [1, 2, 3, 4])"
    by (simp add: decompress_eval)
  have h: "read_headers file_RGBA8 = Inr (?c, example_header 7 1 1, [64, 1, 2, 3, 4])
           \<and> 0 < fst (decompress example_env ?c [64, 1, 2, 3, 4])
           \<and> unpack example_env (example_header 7 1 1)
                (snd (decompress example_env ?c [64, 1, 2, 3, 4])) = Pixels 4 [1, 2, 3, 4]"
    by (simp add: read_headers_file_RGBA8 d unpack_def TCOLayout_of_def example_header_def)
  from channels_by_layout [THEN conjunct2, THEN conjunct2, rule_format, OF h, of "''a.tco''"]
  obtain call where o: "output_stage (ProcessOneFile example_env ''a.tco'' file_RGBA8) = Some call"
    "out_comp call = 4" "out_data call = [1, 2, 3, 4]"
    by blast
  from channels_by_layout [THEN conjunct1, rule_format, OF o(1)] obtain lay where
    "TCOLayout_of (layout (example_header 7 1 1)) = Some lay"
    "spec_channels lay = Some (out_comp call)"
    by (auto simp add: read_headers_file_RGBA8)
  then have "spec_channels RGBA8 = Some (out_comp call)"
    by (simp add: TCOLayout_of_def example_header_def)
  with o w0 w1 w2 w3 w4 w6 w7 w8 w9 w10 w11 w12 w13 show ?thesis by blast
qed

text \<open>
  Claim C8 (unsupported flag). A file whose base header is read (24 bytes or more)
  and whose flag is not 4 is rejected with the unsupported-flag message, whatever
  the libraries would do: nothing is decompressed or unpacked, no image is written,
  and in a batch the other files are processed as they would be without it.
\<close>

theorem unsupported_flag:
  assumes len: "24 \<le> length file" and fl: "rd32 file 0 \<noteq> 4"
  shows "ProcessOneFile e fName file = Rejected (UnsupportedFlag (rd32 file 0))
         \<and> (\<forall>e'. ProcessOneFile e' fName file = ProcessOneFile e fName file)
         \<and> output_stage (ProcessOneFile e fName file) = None
         \<and> written_image (ProcessOneFile e fName file) = None
         \<and> logged (ProcessOneFile e fName file) = [UnsupportedFlag (rd32 file 0)]
         \<and> ProcessFiles e (before @ (fName, file) # after)
             = ProcessFiles e before @ (fName, Rejected (UnsupportedFlag (rd32 file 0)))
                 # ProcessFiles e after"
proof -
  have ne: "file \<noteq> []" using len by auto
  have "rd32 (take 4 file) 0 = rd32 file 0" by (simp add: rd32_def)
  then have "read_headers file = Inl (UnsupportedFlag (rd32 file 0))"
    using len fl
    by (simp add: read_headers_def Read_def sizeof_TCOHeader_def sizeof_BaseHeader_def
          as_BaseHeader_def)
  then have p: "ProcessOneFile e' fName file = Rejected (UnsupportedFlag (rd32 file 0))" for e'
    using ne by (simp add: ProcessOneFile_def)
  then show ?thesis by (simp add: ProcessFiles_def)
qed

theorem unsupported_flag_witness:
  "ProcessOneFile example_env ''b.tco'' file_flag5 = Rejected (UnsupportedFlag 5)
   \<and> ProcessFiles example_env [(''a.tco'', file_RGBA8), (''b.tco'', file_flag5), (''c.tco'', file_RGBA8)]
      = [(''a.tco'', ProcessOneFile example_env ''a.tco'' file_RGBA8),
         (''b.tco'', Rejected (UnsupportedFlag 5)),
         (''c.tco'', ProcessOneFile example_env ''c.tco'' file_RGBA8)]"
proof -
  have h: "24 \<le> length file_flag5" "rd32 file_flag5 0 \<noteq> 4" and v: "rd32 file_flag5 0 = 5"
    by (simp_all add: file_flag5_def rd32_def le_nat_def)
  from unsupported_flag [OF h, of example_env "''b.tco''" "[(''a.tco'', file_RGBA8)]"
      "[(''c.tco'', file_RGBA8)]"]
  show ?thesis by (simp add: v ProcessFiles_def)
qed

text \<open>
  Claim C9 (buffer length), as stated: the buffer handed to the writer has
  \<open>width * height * channels\<close> bytes for every layout. It fails for a passthrough
  layout: the 1 x 1 RGBA8 file whose payload decompresses to one byte reaches the
  writer with a buffer of one byte, not four.
\<close>

theorem buffer_length_counterexample:
  "ProcessOneFile example_env ''a.tco'' file_RGBA8_short
     = Wrote \<lparr> out_filename = ''./Textures_OUT/a.tco.tga'', out_x = 1, out_y = 1,
               out_comp = 4, out_data = [65], out_flip = True \<rparr>
   \<and> length [65 :: uint8] \<noteq> unat (1 :: uint32) * unat (1 :: uint32) * unat (4 :: uint32)"
proof -
  have "file_RGBA8_short \<noteq> []" by (simp add: file_RGBA8_short_def)
  moreover have "read_headers file_RGBA8_short
     = Inr (\<lparr> flag = 4, unk = [0, 0, 0, 0, 0, 0, 0, 0], dataHeaderSize = 24, compressedSize = 2,
              decompressedSize = 1 \<rparr>,
            example_header 7 1 1, [16, 65])"
    by (simp add: headers_eval file_RGBA8_short_def example_header_def)
  ultimately show ?thesis
    by (simp add: ProcessOneFile_def decode_def decompress_eval unpack_def TCOLayout_of_def
          example_header_def)
qed

text \<open>
  Claim C9, amended. For a file that reaches the output stage: with a passthrough
  layout (RGBA8, R8, R11G11B10) the buffer is the decompressed payload, and its
  length is \<^verbatim>\<open>decompressedSize\<close>; with every other layout the buffer has been allocated
  with \<open>(width * height) * channels\<close> bytes, the product taken in 32-bit arithmetic,
  which is \<open>width * height * channels\<close> whenever that is below \<open>2 ^ 32\<close>.
\<close>

theorem buffer_length:
  assumes "output_stage (ProcessOneFile e fName file) = Some call"
  shows "\<exists>c t pData lay. read_headers file = Inr (c, t, pData)
           \<and> TCOLayout_of (layout t) = Some lay
           \<and> spec_channels lay = Some (out_comp call)
           \<and> out_x call = width t \<and> out_y call = height t
           \<and> (if passthrough lay
               then out_data call = snd (decompress e c pData)
                    \<and> length (out_data call) = unat (decompressedSize c)
               else length (out_data call)
                      = (unat (out_x call) * unat (out_y call) * unat (out_comp call)) mod 2 ^ 32
                    \<and> (unat (out_x call) * unat (out_y call) * unat (out_comp call) < 2 ^ 32
                        \<longrightarrow> length (out_data call)
                              = unat (out_x call) * unat (out_y call) * unat (out_comp call)))"
proof -
  from ProcessOneFile_output_stageD [OF assms] obtain c t pData where
    h: "read_headers file = Inr (c, t, pData)"
    and d: "output_stage (decode e fName c t pData) = Some call"
    by blast
  from decode_output_stageD [OF d]
  have u: "unpack e t (snd (decompress e c pData)) = Pixels (out_comp call) (out_data call)"
    and xy: "out_x call = width t" "out_y call = height t"
    by simp_all
  from unpack_PixelsD [OF u] obtain lay where
    lay: "TCOLayout_of (layout t) = Some lay" "spec_channels lay = Some (out_comp call)"
    and b: "if passthrough lay then out_data call = snd (decompress e c pData)
            else length (out_data call) = unat ((width t * height t) * out_comp call)"
    by blast
  show ?thesis
  proof (cases "passthrough lay")
    case True
    with b have "out_data call = snd (decompress e c pData)" by simp
    moreover from this have "length (out_data call) = unat (decompressedSize c)" by simp
    ultimately show ?thesis using h lay xy True by auto
  next
    case False
    with b have "length (out_data call) = unat ((out_x call * out_y call) * out_comp call)"
      by (simp add: xy)
    then have "length (out_data call)
               = (unat (out_x call) * unat (out_y call) * unat (out_comp call)) mod 2 ^ 32"
      by (simp only: unat_product)
    then show ?thesis using h lay xy False by auto
  qed
qed

theorem buffer_length_witness:
  "(\<exists>call. output_stage (ProcessOneFile example_env ''a.tco'' file_RGBA8) = Some call
      \<and> length (out_data call) = 4)
   \<and> (\<exists>call. output_stage (ProcessOneFile example_env ''b.tco'' file_R16) = Some call
      \<and> length (out_data call) = 2 * 1 * 1)"
proof -
  have o: "output_stage (ProcessOneFile example_env ''a.tco'' file_RGBA8)
     = Some \<lparr> out_filename = ''./Textures_OUT/'' @ ''a.tco'' @ ''.tga'', out_x = 1, out_y = 1,
             out_comp = 4, out_data = [1, 2, 3, 4], out_flip = True \<rparr>"
    by (simp add: ProcessOneFile_file_RGBA8)
  from buffer_length [OF o]
  have a: "\<exists>call. output_stage (ProcessOneFile example_env ''a.tco'' file_RGBA8) = Some call
      \<and> length (out_data call) = 4"
    using o by simp
  have ne: "file_R16 \<noteq> []" by (simp add: file_R16_def)
  have dz: "decompress example_env
              \<lparr> flag = 4, unk = [0, 0, 0, 0, 0, 0, 0, 0], dataHeaderSize = 24,
                compressedSize = 9, decompressedSize = 8 \<rparr>
              [128, 255, 255, 7, 7, 0, 128, 9, 9]
            = (8, [255, 255, 7, 7, 0, 128, 9, 9])"
    by (simp add: decompress_eval)
  have "length [255, 255, 7, 7, 0, 128, 9, 9 :: uint8] = 4 * 2"
    "2 \<le> length (new_pixels example_env (example_header 9 2 1) 1)"
    by (simp_all add: example_header_def)
  from R16_loop_result [OF this]
  obtain buf where l: "R16_loop [255, 255, 7, 7, 0, 128, 9, 9] 0 0
                         (new_pixels example_env (example_header 9 2 1) 1) = Inr buf"
    by blast
  have ly: "TCOLayout_of (layout (example_header 9 2 1)) = Some R16"
    by (simp add: TCOLayout_of_def example_header_def)
  have wr: "stbi_write_tga example_env call" for call
    by (simp add: example_env_def)
  have "\<exists>call. output_stage (ProcessOneFile example_env ''b.tco'' file_R16) = Some call"
    using ne l
    by (simp add: ProcessOneFile_def read_headers_file_R16 decode_def dz unpack_def
          ly after_loop_def wr)
  then obtain call where
    r: "output_stage (ProcessOneFile example_env ''b.tco'' file_R16) = Some call"
    by blast
  from buffer_length [OF r] obtain lay where
    "TCOLayout_of (layout (example_header 9 2 1)) = Some lay"
    "spec_channels lay = Some (out_comp call)"
    "out_x call = width (example_header 9 2 1)" "out_y call = height (example_header 9 2 1)"
    "if passthrough lay then True
     else length (out_data call)
            = (unat (out_x call) * unat (out_y call) * unat (out_comp call)) mod 2 ^ 32"
    by (auto simp add: read_headers_file_R16 split: if_splits)
  then have "length (out_data call) = 2 * 1 * 1"
    by (auto simp add: TCOLayout_of_def example_header_def passthrough_def)
  with r a show ?thesis by blast
qed

text \<open>
  Claim C2 (header reads). A read succeeds only when strictly more bytes remain in
  the buffer than the size of the structure, and fails on an exact fit. A file that
  ends exactly with a header is rejected as truncated: a file of the 4 bytes of a base
  header by the size check at the start, a file that ends with the compressed-data
  header or with the TCO header by the read of that header.
\<close>

theorem header_reads_need_a_trailing_byte:
  "(Read sz file buf advance \<noteq> None \<longleftrightarrow> buf \<le> length file \<and> sz < length file - buf)
   \<and> (buf \<le> length file \<and> length file - buf = sz \<longrightarrow> Read sz file buf advance = None)
   \<and> (length file = sizeof_BaseHeader \<longrightarrow>
        Read sizeof_BaseHeader file 0 False = None
        \<and> (\<exists>err. ProcessOneFile e fName file = Rejected err \<and> truncated_header err))
   \<and> (length file = sizeof_CompressedDataHeader \<and> rd32 file 0 = 4 \<longrightarrow>
        Read sizeof_CompressedDataHeader file 0 True = None
        \<and> ProcessOneFile e fName file = Rejected CompHeaderReadFailed
        \<and> truncated_header CompHeaderReadFailed)
   \<and> (length file = sizeof_CompressedDataHeader + sizeof_TCOHeader
        \<and> rd32 file 0 = 4 \<and> rd32 file 12 = 24 \<longrightarrow>
        Read sizeof_TCOHeader file sizeof_CompressedDataHeader True = None
        \<and> ProcessOneFile e fName file = Rejected TCOHeaderReadFailed
        \<and> truncated_header TCOHeaderReadFailed)"
proof -
  have a: "Read sz file buf advance \<noteq> None \<longleftrightarrow> buf \<le> length file \<and> sz < length file - buf"
    by (auto simp add: Read_def)
  have b: "Read sz file buf advance = None" if "buf \<le> length file \<and> length file - buf = sz"
    using that by (auto simp add: Read_def)
  have c: "Read sizeof_BaseHeader file 0 False = None
        \<and> (\<exists>err. ProcessOneFile e fName file = Rejected err \<and> truncated_header err)"
    if "length file = sizeof_BaseHeader"
  proof -
    from that have "file \<noteq> []" by (auto simp add: sizeof_BaseHeader_def)
    with that have "ProcessOneFile e fName file = Rejected FileIncomplete"
      by (simp add: ProcessOneFile_def read_headers_def sizeof_BaseHeader_def sizeof_TCOHeader_def)
    with that show ?thesis by (simp add: truncated_header_def Read_def)
  qed
  have d: "Read sizeof_CompressedDataHeader file 0 True = None
        \<and> ProcessOneFile e fName file = Rejected CompHeaderReadFailed
        \<and> truncated_header CompHeaderReadFailed"
    if "length file = sizeof_CompressedDataHeader \<and> rd32 file 0 = 4"
  proof -
    from that have "file \<noteq> []" by (auto simp add: sizeof_CompressedDataHeader_def)
    moreover have "rd32 (take 4 file) 0 = rd32 file 0" by (simp add: rd32_def)
    ultimately show ?thesis
      using that
      by (simp add: ProcessOneFile_def read_headers_def Read_def sizeof_BaseHeader_def
            sizeof_TCOHeader_def sizeof_CompressedDataHeader_def as_BaseHeader_def
            truncated_header_def)
  qed
  have f: "Read sizeof_TCOHeader file sizeof_CompressedDataHeader True = None
        \<and> ProcessOneFile e fName file = Rejected TCOHeaderReadFailed
        \<and> truncated_header TCOHeaderReadFailed"
    if "length file = sizeof_CompressedDataHeader + sizeof_TCOHeader
        \<and> rd32 file 0 = 4 \<and> rd32 file 12 = 24"
  proof -
    from that have "file \<noteq> []" by (auto simp add: sizeof_CompressedDataHeader_def)
    moreover have "rd32 (take 4 file) 0 = rd32 file 0" by (simp add: rd32_def)
    moreover have "rd32 (take 24 file) 12 = rd32 file 12"
      by (simp add: rd32_def drop_take take_take)
    ultimately show ?thesis
      using that
      by (simp add: ProcessOneFile_def read_headers_def Read_def sizeof_BaseHeader_def
            sizeof_TCOHeader_def sizeof_CompressedDataHeader_def as_BaseHeader_def
            as_CompressedDataHeader_def truncated_header_def)
  qed
  from a b c d f show ?thesis by blast
qed

theorem header_reads_need_a_trailing_byte_witness:
  "Read 24 (take 24 file_RGBA8) 0 True = None
   \<and> Read 24 (take 25 file_RGBA8) 0 True \<noteq> None
   \<and> ProcessOneFile example_env ''a.tco'' (take 4 file_RGBA8) = Rejected FileIncomplete
   \<and> ProcessOneFile example_env ''a.tco'' (take 24 file_RGBA8) = Rejected CompHeaderReadFailed
   \<and> ProcessOneFile example_env ''a.tco'' (take 48 file_RGBA8) = Rejected TCOHeaderReadFailed"
proof -
  have h24: "0 \<le> length (take 24 file_RGBA8) \<and> length (take 24 file_RGBA8) - 0 = 24"
    and h25: "0 \<le> length (take 25 file_RGBA8) \<and> 24 < length (take 25 file_RGBA8) - 0"
    and h4: "length (take 4 file_RGBA8) = sizeof_BaseHeader"
    and hc: "length (take 24 file_RGBA8) = sizeof_CompressedDataHeader
             \<and> rd32 (take 24 file_RGBA8) 0 = 4"
    and ht: "length (take 48 file_RGBA8) = sizeof_CompressedDataHeader + sizeof_TCOHeader
             \<and> rd32 (take 48 file_RGBA8) 0 = 4 \<and> rd32 (take 48 file_RGBA8) 12 = 24"
    by (simp_all add: file_RGBA8_def sizeof_BaseHeader_def sizeof_CompressedDataHeader_def
          sizeof_TCOHeader_def rd32_def le_nat_def)
  note t = header_reads_need_a_trailing_byte [of _ _ _ _ example_env "''a.tco''"]
  have "Read 24 (take 24 file_RGBA8) 0 True = None"
    using t [of 24 "take 24 file_RGBA8" 0 True] h24 by blast
  moreover have "Read 24 (take 25 file_RGBA8) 0 True \<noteq> None"
    using t [of 24 "take 25 file_RGBA8" 0 True] h25 by blast
  moreover have "\<exists>err. ProcessOneFile example_env ''a.tco'' (take 4 file_RGBA8) = Rejected err
                   \<and> truncated_header err"
    using t [of 0 "take 4 file_RGBA8" 0 True] h4 by blast
  moreover have "ProcessOneFile example_env ''a.tco'' (take 24 file_RGBA8) = Rejected CompHeaderReadFailed"
    using t [of 0 "take 24 file_RGBA8" 0 True] hc by blast
  moreover have "ProcessOneFile example_env ''a.tco'' (take 48 file_RGBA8) = Rejected TCOHeaderReadFailed"
    using t [of 0 "take 48 file_RGBA8" 0 True] ht by blast
  moreover have "ProcessOneFile example_env ''a.tco'' (take 4 file_RGBA8) = Rejected FileIncomplete"
    by (simp add: ProcessOneFile_def read_headers_def file_RGBA8_def sizeof_TCOHeader_def)
  ultimately show ?thesis by blast
qed

end
